theory Spec2Isabelle
  imports Main "HOL-Library.Multiset"
begin

section \<open>Go values used by package easyminio\<close>

text \<open>
  A Go string is a sequence of bytes: \<open>string\<close>. A Go \<open>error\<close> is represented by its
  message, the text that \<open>%v\<close> prints; the nil error is \<open>None\<close>.
\<close>

type_synonym error = string

subsection \<open>Package strings\<close>

definition HasPrefix :: "string \<Rightarrow> string \<Rightarrow> bool" where
  "HasPrefix s p = (length p \<le> length s \<and> take (length p) s = p)"

definition HasSuffix :: "string \<Rightarrow> string \<Rightarrow> bool" where
  "HasSuffix s suf = (length suf \<le> length s \<and> drop (length s - length suf) s = suf)"

definition TrimPrefix :: "string \<Rightarrow> string \<Rightarrow> string" where
  "TrimPrefix s p = (if HasPrefix s p then drop (length p) s else s)"

subsection \<open>Package fmt\<close>

text \<open>
  The operands the package passes to \<open>fmt.Sprintf\<close> and \<open>fmt.Errorf\<close>: strings, an int
  and a slice of errors. Only the verbs the package uses (\<open>%s\<close>, \<open>%d\<close>, \<open>%v\<close>) are
  rendered as Go renders them; the format strings of the package are constants whose
  verbs match their operands, so the other branches are never taken by it.
\<close>

datatype fmt_arg = ArgString string | ArgInt int | ArgErrors "error list"

definition digit_char :: "nat \<Rightarrow> char" where
  "digit_char d = ''0123456789'' ! d"

fun FormatNat :: "nat \<Rightarrow> string" where
  "FormatNat n = (if n < 10 then [digit_char n] else FormatNat (n div 10) @ [digit_char (n mod 10)])"

declare FormatNat.simps [simp del]

definition FormatInt :: "int \<Rightarrow> string" where
  "FormatInt i = (if i < 0 then CHR ''-'' # FormatNat (nat (- i)) else FormatNat (nat i))"

fun join_errors :: "error list \<Rightarrow> string" where
  "join_errors [] = []"
| "join_errors [e] = e"
| "join_errors (e # es) = e @ '' '' @ join_errors es"

fun format_verb :: "char \<Rightarrow> fmt_arg \<Rightarrow> string" where
  "format_verb v (ArgString s) = (if v = CHR ''s'' \<or> v = CHR ''v'' then s else ''%!'' @ [v] @ ''(string='' @ s @ '')'')"
| "format_verb v (ArgInt i) = (if v = CHR ''d'' \<or> v = CHR ''v'' then FormatInt i else ''%!'' @ [v] @ ''(int='' @ FormatInt i @ '')'')"
| "format_verb v (ArgErrors es) = ''['' @ join_errors es @ '']''"

fun Sprintf :: "string \<Rightarrow> fmt_arg list \<Rightarrow> string" where
  "Sprintf [] args = []"
| "Sprintf [c] args = (if c = CHR ''%'' then ''%!(NOVERB)'' else [c])"
| "Sprintf (c # v # rest) args =
     (if c = CHR ''%'' then
        (if v = CHR ''%'' then CHR ''%'' # Sprintf rest args
         else case args of
                [] \<Rightarrow> ''%!'' @ [v] @ ''(MISSING)'' @ Sprintf rest []
              | a # as \<Rightarrow> format_verb v a @ Sprintf rest as)
      else c # Sprintf (v # rest) args)"

definition Errorf :: "string \<Rightarrow> fmt_arg list \<Rightarrow> error" where
  "Errorf f args = Sprintf f args"

subsection \<open>Package time and net/url\<close>

text \<open>A \<open>time.Duration\<close> counts nanoseconds.\<close>

type_synonym Duration = int

definition Nanosecond :: Duration where "Nanosecond = 1"
definition Microsecond :: Duration where "Microsecond = 1000 * Nanosecond"
definition Millisecond :: Duration where "Millisecond = 1000 * Microsecond"
definition Second :: Duration where "Second = 1000 * Millisecond"
definition Minute :: Duration where "Minute = 60 * Second"
definition Hour :: Duration where "Hour = 60 * Minute"

text \<open>\<open>url.Values\<close> maps a key to a list of values; \<open>Set\<close> replaces the list of a key.\<close>

type_synonym Values = "(string \<times> string list) list"

fun Values_Set :: "Values \<Rightarrow> string \<Rightarrow> string \<Rightarrow> Values" where
  "Values_Set [] k v = [(k, [v])]"
| "Values_Set ((k', vs) # m) k v = (if k' = k then (k, [v]) # m else (k', vs) # Values_Set m k v)"

type_synonym URL = string

section \<open>The minio client, an external collaborator\<close>

text \<open>
  The package calls six methods of \<open>*minio.Client\<close>. The client is not part of the
  repository: it is a record of these capabilities over the state \<open>'st\<close> of the remote
  store and of the local file system, about which nothing is assumed. A listing is the
  finite sequence of values that the channel returned by \<open>ListObjectsV2\<close> delivers
  before it is closed.
\<close>

record ObjectInfo =
  Key :: string
  Err :: "error option"

record PutObjectOptions =
  ContentType :: string

type_synonym GetObjectOptions = unit

record 'st Client =
  BucketExists :: "string \<Rightarrow> 'st \<Rightarrow> (bool \<times> error option) \<times> 'st"
  SetBucketLifecycle :: "string \<Rightarrow> string \<Rightarrow> 'st \<Rightarrow> error option \<times> 'st"
  PutObject :: "string \<Rightarrow> string \<Rightarrow> string \<Rightarrow> int \<Rightarrow> PutObjectOptions \<Rightarrow> 'st \<Rightarrow> (int \<times> error option) \<times> 'st"
  PresignedGetObject :: "string \<Rightarrow> string \<Rightarrow> Duration \<Rightarrow> Values \<Rightarrow> 'st \<Rightarrow> (URL option \<times> error option) \<times> 'st"
  ListObjectsV2 :: "string \<Rightarrow> string \<Rightarrow> bool \<Rightarrow> 'st \<Rightarrow> ObjectInfo list"
  FGetObject :: "string \<Rightarrow> string \<Rightarrow> string \<Rightarrow> GetObjectOptions \<Rightarrow> 'st \<Rightarrow> error option \<times> 'st"

section \<open>S3Service and its sequential operations\<close>

record 'st S3Service =
  s3Client :: "'st Client"
  lifeCycleRules :: string
  bucketName :: string
  urlValues :: Values

text \<open>
  Every method has the receiver \<open>s *S3Service\<close>: the object \<open>s\<close> points to lives in the
  heap beside the state the client works on. A method takes this pair and returns it,
  so that an assignment to a field of \<open>s\<close> would show in the result.
\<close>

record 'st world =
  service :: "'st S3Service"
  remote :: 'st

definition NewS3Service ::
  "(string \<Rightarrow> string \<Rightarrow> string \<Rightarrow> bool \<Rightarrow> error + 'st Client) \<Rightarrow>
   string \<Rightarrow> string \<Rightarrow> string \<Rightarrow> string \<Rightarrow> 'st \<Rightarrow> (error + 'st S3Service) \<times> 'st" where
  "NewS3Service minio_New url accessKey accessSecret bucket st =
     (case minio_New url accessKey accessSecret True of
        Inl err \<Rightarrow> (Inl err, st)
      | Inr client \<Rightarrow>
          (case BucketExists client bucket st of
             ((exists, Some err), st') \<Rightarrow> (Inl err, st')
           | ((exists, None), st') \<Rightarrow>
               if \<not> exists then (Inl (Errorf ''s3 bucket (%s) doesn't exist'' [ArgString bucket]), st')
               else (Inr \<lparr>s3Client = client, lifeCycleRules = '''', bucketName = bucket,
                          urlValues = Values_Set [] ''response-content-disposition'' ''inline''\<rparr>, st')))"

definition lifeCycleFormat :: string where
  "lifeCycleFormat = ''<LifecycleConfiguration><Rule><ID>%s</ID><Prefix>%s</Prefix><Status>Enabled</Status><Expiration><Days>%d</Days></Expiration></Rule></LifecycleConfiguration>''"

definition AddLifeCycleRule :: "string \<Rightarrow> string \<Rightarrow> int \<Rightarrow> 'st world \<Rightarrow> error option \<times> 'st world" where
  "AddLifeCycleRule ruleID folderPath daysToExpiry w =
     (let s = service w;
          folderPath' = (if \<not> HasSuffix folderPath ''/'' then folderPath @ ''/'' else folderPath);
          lifeCycleString = Sprintf lifeCycleFormat [ArgString ruleID, ArgString folderPath', ArgInt daysToExpiry];
          (err, st') = SetBucketLifecycle (s3Client s) (bucketName s) lifeCycleString (remote w)
      in (err, w\<lparr>remote := st'\<rparr>))"

definition UploadJSONFile :: "string \<Rightarrow> string \<Rightarrow> 'st world \<Rightarrow> error option \<times> 'st world" where
  "UploadJSONFile path data w =
     (let s = service w;
          ((n, err), st') = PutObject (s3Client s) (bucketName s) path data (- 1)
                              \<lparr>ContentType = ''application/json''\<rparr> (remote w)
      in (err, w\<lparr>remote := st'\<rparr>))"

definition GetFileURL :: "string \<Rightarrow> Duration \<Rightarrow> 'st world \<Rightarrow> (URL option \<times> error option) \<times> 'st world" where
  "GetFileURL path expiration w =
     (let s = service w;
          (r, st') = PresignedGetObject (s3Client s) (bucketName s) path expiration (urlValues s) (remote w)
      in (r, w\<lparr>remote := st'\<rparr>))"

definition UploadJSONFileWithLink ::
  "string \<Rightarrow> string \<Rightarrow> Duration \<Rightarrow> 'st world \<Rightarrow> (URL option \<times> error option) \<times> 'st world" where
  "UploadJSONFileWithLink path data expiration w =
     (let s = service w;
          ((n, err), st') = PutObject (s3Client s) (bucketName s) path data (- 1)
                              \<lparr>ContentType = ''application/json''\<rparr> (remote w)
      in case err of
           Some e \<Rightarrow> ((None, Some e), w\<lparr>remote := st'\<rparr>)
         | None \<Rightarrow>
             (let (r, st'') = PresignedGetObject (s3Client s) (bucketName s) path (24 * Hour) (urlValues s) st'
              in (r, w\<lparr>remote := st''\<rparr>)))"

definition DownloadFile :: "string \<Rightarrow> string \<Rightarrow> 'st world \<Rightarrow> error option \<times> 'st world" where
  "DownloadFile path localPath w =
     (let s = service w;
          (err, st') = FGetObject (s3Client s) (bucketName s) path localPath () (remote w)
      in (err, w\<lparr>remote := st'\<rparr>))"


section \<open>DownloadDirectory: the goroutines and their interleavings\<close>

text \<open>
  \<open>DownloadDirectory\<close> runs the calling goroutine, one goroutine per listed object
  (started by the \<open>go\<close> statement in the range loop) and one goroutine that waits for
  the wait group and closes \<open>errCh\<close>. A configuration holds what they share and where
  each of them stands; a step of one goroutine is a function on configurations that is
  \<open>None\<close> where the goroutine cannot move (it is blocked or has ended). \<open>errCh\<close> is
  unbuffered, so a send is one joint step of the sending worker and the receiving caller.
  A call of \<open>FGetObject\<close> is one step of the worker that makes it.
\<close>

datatype wstate =
    WStart            \<comment> \<open>started by \<open>go\<close>, nothing executed yet\<close>
  | WSend error       \<comment> \<open>at \<open>errCh <- err\<close>, waiting for the receiver\<close>
  | WFinish           \<comment> \<open>before the last \<open>wg.Done()\<close>\<close>
  | WDone             \<comment> \<open>returned\<close>

datatype cstate =
    CNotStarted       \<comment> \<open>the range loop has not ended\<close>
  | CWait             \<comment> \<open>at \<open>wg.Wait()\<close>\<close>
  | CClosed           \<comment> \<open>after \<open>close(errCh)\<close>\<close>

datatype mainpc =
    AtRange                      \<comment> \<open>\<open>for obj := range objectCh\<close>\<close>
  | AtCollect                    \<comment> \<open>\<open>for err := range errCh\<close>\<close>
  | Returned "error option"      \<comment> \<open>the value \<open>DownloadDirectory\<close> returned\<close>

record 'st config =
  wld :: "'st world"
  objectCh :: "ObjectInfo list"                          \<comment> \<open>what the listing still delivers\<close>
  mainpc :: mainpc
  errs :: "error list"
  wg :: int
  workers :: "(ObjectInfo \<times> wstate) list"                \<comment> \<open>one per \<open>go\<close> statement executed, in order\<close>
  closer :: cstate
  doneCh_closed :: bool
  fslog :: "(string \<times> string \<times> error option) list"      \<comment> \<open>the calls of \<open>DownloadFile\<close> made: path, localPath, result\<close>

definition aggregateFormat :: string where
  "aggregateFormat = ''failed to download files from s3: %v''"

definition DownloadDirectory :: "string \<Rightarrow> string \<Rightarrow> 'st world \<Rightarrow> 'st config" where
  "DownloadDirectory path localPath w =
     \<lparr>wld = w,
      objectCh = ListObjectsV2 (s3Client (service w)) (bucketName (service w)) path True (remote w),
      mainpc = AtRange, errs = [], wg = 0, workers = [], closer = CNotStarted,
      doneCh_closed = False, fslog = []\<rparr>"

definition main_step :: "'st config \<Rightarrow> 'st config option" where
  "main_step c =
     (case mainpc c of
        AtRange \<Rightarrow>
          (case objectCh c of
             [] \<Rightarrow> Some (c\<lparr>mainpc := AtCollect, closer := CWait\<rparr>)
           | obj # rest \<Rightarrow>
               (case Err obj of
                  Some e \<Rightarrow> Some (c\<lparr>objectCh := rest, mainpc := Returned (Some e), doneCh_closed := True\<rparr>)
                | None \<Rightarrow> Some (c\<lparr>objectCh := rest, wg := wg c + 1, workers := workers c @ [(obj, WStart)]\<rparr>)))
      | AtCollect \<Rightarrow>
          (if closer c = CClosed
           then Some (c\<lparr>mainpc := Returned (if length (errs c) > 0
                                             then Some (Errorf aggregateFormat [ArgErrors (errs c)])
                                             else None),
                       doneCh_closed := True\<rparr>)
           else None)
      | Returned r \<Rightarrow> None)"

definition fileName :: "string \<Rightarrow> ObjectInfo \<Rightarrow> string" where
  "fileName path obj = TrimPrefix (Key obj) (path @ ''/'')"

definition worker_step :: "string \<Rightarrow> string \<Rightarrow> nat \<Rightarrow> 'st config \<Rightarrow> 'st config option" where
  "worker_step path localPath i c =
     (if i < length (workers c) then
        (case workers c ! i of
           (obj, WStart) \<Rightarrow>
             if HasSuffix (Key obj) ''/''
             then Some (c\<lparr>wg := wg c - 1, workers := (workers c)[i := (obj, WDone)]\<rparr>)
             else (let (err, w') = DownloadFile (Key obj) (localPath @ ''/'' @ fileName path obj) (wld c)
                   in Some (c\<lparr>wld := w',
                               fslog := fslog c @ [(Key obj, localPath @ ''/'' @ fileName path obj, err)],
                               workers := (workers c)[i := (obj, case err of Some e \<Rightarrow> WSend e | None \<Rightarrow> WFinish)]\<rparr>))
         | (obj, WSend e) \<Rightarrow> None
         | (obj, WFinish) \<Rightarrow> Some (c\<lparr>wg := wg c - 1, workers := (workers c)[i := (obj, WDone)]\<rparr>)
         | (obj, WDone) \<Rightarrow> None)
      else None)"

text \<open>
  The joint step of \<open>errCh <- err\<close> in worker \<open>i\<close> and the receive of the caller's range
  loop. A send on a closed channel would panic; \<open>errCh\<close> is closed only when the wait
  group is at zero, and then every worker has returned (\<open>inv_workers\<close> below), so the
  step is simply disabled there.
\<close>

definition errCh_step :: "nat \<Rightarrow> 'st config \<Rightarrow> 'st config option" where
  "errCh_step i c =
     (if mainpc c = AtCollect \<and> closer c \<noteq> CClosed \<and> i < length (workers c) then
        (case workers c ! i of
           (obj, WSend e) \<Rightarrow> Some (c\<lparr>errs := errs c @ [e], workers := (workers c)[i := (obj, WFinish)]\<rparr>)
         | _ \<Rightarrow> None)
      else None)"

definition closer_step :: "'st config \<Rightarrow> 'st config option" where
  "closer_step c = (if closer c = CWait \<and> wg c = 0 then Some (c\<lparr>closer := CClosed\<rparr>) else None)"

datatype event = Main | Worker nat | ErrCh nat | Closer

fun exec :: "string \<Rightarrow> string \<Rightarrow> event \<Rightarrow> 'st config \<Rightarrow> 'st config option" where
  "exec path localPath Main c = main_step c"
| "exec path localPath (Worker i) c = worker_step path localPath i c"
| "exec path localPath (ErrCh i) c = errCh_step i c"
| "exec path localPath Closer c = closer_step c"

text \<open>A schedule is the order in which the goroutines move; \<open>run\<close> is \<open>None\<close> when the
  schedule asks a goroutine to move that cannot.\<close>

fun run :: "string \<Rightarrow> string \<Rightarrow> event list \<Rightarrow> 'st config \<Rightarrow> 'st config option" where
  "run path localPath [] c = Some c"
| "run path localPath (ev # evs) c =
     (case exec path localPath ev c of None \<Rightarrow> None | Some c' \<Rightarrow> run path localPath evs c')"

definition returned :: "'st config \<Rightarrow> bool" where
  "returned c = (case mainpc c of Returned r \<Rightarrow> True | _ \<Rightarrow> False)"

definition downloads :: "'st config \<Rightarrow> (string \<times> string) list" where
  "downloads c = map (\<lambda>(k, lp, r). (k, lp)) (fslog c)"

definition failures :: "'st config \<Rightarrow> error list" where
  "failures c = List.map_filter (\<lambda>(k, lp, r). r) (fslog c)"

definition target :: "string \<Rightarrow> string \<Rightarrow> ObjectInfo \<Rightarrow> string \<times> string" where
  "target path localPath obj = (Key obj, localPath @ ''/'' @ fileName path obj)"

definition is_marker :: "ObjectInfo \<Rightarrow> bool" where
  "is_marker obj = HasSuffix (Key obj) ''/''"

section \<open>Invariants of the interleavings\<close>

definition live :: "(ObjectInfo \<times> wstate) list \<Rightarrow> nat" where
  "live ws = length (filter (\<lambda>w. snd w \<noteq> WDone) ws)"

definition started :: "string \<Rightarrow> string \<Rightarrow> (ObjectInfo \<times> wstate) list \<Rightarrow> (string \<times> string) list" where
  "started path localPath ws =
     map (\<lambda>w. target path localPath (fst w)) (filter (\<lambda>w. \<not> is_marker (fst w) \<and> snd w \<noteq> WStart) ws)"

definition sending :: "(ObjectInfo \<times> wstate) list \<Rightarrow> error list" where
  "sending ws = List.map_filter (\<lambda>w. case snd w of WSend e \<Rightarrow> Some e | _ \<Rightarrow> None) ws"

definition aggregate :: "error list \<Rightarrow> error option" where
  "aggregate es = (if es = [] then None else Some (Errorf aggregateFormat [ArgErrors es]))"

definition inv_pc :: "ObjectInfo list \<Rightarrow> 'st config \<Rightarrow> bool" where
  "inv_pc L c =
     (case mainpc c of
        AtRange \<Rightarrow> map fst (workers c) @ objectCh c = L \<and> closer c = CNotStarted \<and> errs c = []
      | AtCollect \<Rightarrow> map fst (workers c) = L \<and> objectCh c = [] \<and> closer c \<noteq> CNotStarted
      | Returned r \<Rightarrow>
          (closer c = CClosed \<and> map fst (workers c) = L \<and> objectCh c = [] \<and> r = aggregate (errs c))
          \<or> (closer c = CNotStarted \<and> errs c = [] \<and> r \<noteq> None \<and>
              (\<exists>obj. Err obj = r \<and> L = map fst (workers c) @ obj # objectCh c)))"

definition inv_workers :: "'st config \<Rightarrow> bool" where
  "inv_workers c =
     ((\<forall>w \<in> set (workers c). Err (fst w) = None \<and> (is_marker (fst w) \<longrightarrow> snd w = WStart \<or> snd w = WDone))
      \<and> wg c = int (live (workers c))
      \<and> (closer c = CClosed \<longrightarrow> wg c = 0)
      \<and> doneCh_closed c = returned c)"

definition inv_log :: "string \<Rightarrow> string \<Rightarrow> 'st config \<Rightarrow> bool" where
  "inv_log path localPath c =
     (mset (downloads c) = mset (started path localPath (workers c))
      \<and> mset (failures c) = mset (errs c) + mset (sending (workers c)))"

definition inv :: "string \<Rightarrow> string \<Rightarrow> ObjectInfo list \<Rightarrow> 'st config \<Rightarrow> bool" where
  "inv p lp L c = (inv_pc L c \<and> inv_workers c \<and> inv_log p lp c)"

fun wweight :: "wstate \<Rightarrow> nat" where
  "wweight WStart = 3"
| "wweight (WSend e) = 2"
| "wweight WFinish = 1"
| "wweight WDone = 0"

definition weight :: "'st config \<Rightarrow> nat" where
  "weight c =
     4 * length (objectCh c)
     + (case mainpc c of AtRange \<Rightarrow> 3 | AtCollect \<Rightarrow> 1 | Returned r \<Rightarrow> 0)
     + (case closer c of CClosed \<Rightarrow> 0 | _ \<Rightarrow> 1)
     + sum_list (map (\<lambda>w. wweight (snd w)) (workers c))"

text \<open>Every download of a listed object that is not a marker succeeds, whatever the state.\<close>

definition downloads_succeed :: "'st S3Service \<Rightarrow> string \<Rightarrow> string \<Rightarrow> ObjectInfo list \<Rightarrow> bool" where
  "downloads_succeed s p lp L =
     (\<forall>obj \<in> set L. \<not> is_marker obj \<longrightarrow>
        (\<forall>st. fst (FGetObject (s3Client s) (bucketName s) (Key obj) (snd (target p lp obj)) () st) = None))"

section \<open>A client that records its calls\<close>

text \<open>
  To run the operations on concrete inputs, a client whose state is the list of the calls
  made so far. Its listing and the result of each \<open>FGetObject\<close> (by key) are
  parameters; every other call succeeds. \<open>objects_under keys\<close> is the listing of a
  store that holds the objects \<open>keys\<close>: the keys that begin with the prefix.
\<close>

datatype call =
    CallBucketExists string
  | CallSetBucketLifecycle string string
  | CallPutObject string string string int PutObjectOptions
  | CallPresignedGetObject string string Duration Values
  | CallFGetObject string string string

definition recording_client :: "(string \<Rightarrow> ObjectInfo list) \<Rightarrow> (string \<Rightarrow> error option) \<Rightarrow> call list Client" where
  "recording_client listing failing =
     \<lparr>BucketExists = (\<lambda>b st. ((True, None), st @ [CallBucketExists b])),
      SetBucketLifecycle = (\<lambda>b policy st. (None, st @ [CallSetBucketLifecycle b policy])),
      PutObject = (\<lambda>b k d n opts st. ((int (length d), None), st @ [CallPutObject b k d n opts])),
      PresignedGetObject = (\<lambda>b k e v st. ((Some (''https://s3/'' @ b @ ''/'' @ k), None), st @ [CallPresignedGetObject b k e v])),
      ListObjectsV2 = (\<lambda>b prefix recursive st. listing prefix),
      FGetObject = (\<lambda>b k lp opts st. (failing k, st @ [CallFGetObject b k lp]))\<rparr>"

definition objects_under :: "string list \<Rightarrow> string \<Rightarrow> ObjectInfo list" where
  "objects_under keys prefix = map (\<lambda>k. \<lparr>Key = k, Err = None\<rparr>) (filter (\<lambda>k. HasPrefix k prefix) keys)"

definition recording_world :: "(string \<Rightarrow> ObjectInfo list) \<Rightarrow> (string \<Rightarrow> error option) \<Rightarrow> call list world" where
  "recording_world listing failing =
     \<lparr>service = \<lparr>s3Client = recording_client listing failing, lifeCycleRules = '''', bucketName = ''bucket'',
                  urlValues = Values_Set [] ''response-content-disposition'' ''inline''\<rparr>,
      remote = []\<rparr>"

text \<open>The store of the scenario: a marker and two files under \<open>reports/2024/\<close>; every download succeeds.\<close>

definition scenario_world :: "call list world" where
  "scenario_world =
     recording_world (objects_under [''reports/2024/'', ''reports/2024/a.json'', ''reports/2024/b.json''])
       (\<lambda>k. None)"

section \<open>Proofs\<close>

subsection \<open>The invariants hold in every run\<close>

lemma update_split:
  assumes "i < length ws"
  shows "\<exists>as bs. ws = as @ ws ! i # bs \<and> ws[i := y] = as @ y # bs \<and> length as = i"
proof (intro exI conjI)
  show "ws = take i ws @ ws ! i # drop (Suc i) ws" using assms by (rule id_take_nth_drop)
  show "ws[i := y] = take i ws @ y # drop (Suc i) ws" using assms by (rule upd_conv_take_nth_drop)
  show "length (take i ws) = i" using assms by simp
qed

lemma map_filter_append [simp]: "List.map_filter f (xs @ ys) = List.map_filter f xs @ List.map_filter f ys"
  by (simp add: List.map_filter_def)

lemma inv_pc_main:
  assumes "main_step c = Some c'" "inv_pc L c"
  shows "inv_pc L c'"
  using assms
  by (auto simp: main_step_def inv_pc_def aggregate_def split: mainpc.splits list.splits option.splits if_splits) metis+

lemma inv_workers_main:
  assumes "main_step c = Some c'" "inv_workers c" "inv_pc L c"
  shows "inv_workers c'"
  using assms
  by (auto simp: main_step_def inv_workers_def inv_pc_def returned_def live_def is_marker_def split: mainpc.splits list.splits option.splits if_splits)

lemma inv_log_main:
  assumes "main_step c = Some c'" "inv_log p lp c"
  shows "inv_log p lp c'"
  using assms
  by (auto simp: main_step_def inv_log_def downloads_def failures_def started_def sending_def List.map_filter_simps split: mainpc.splits list.splits option.splits if_splits)

lemma worker_step_cases:
  assumes "worker_step p lp i c = Some c'"
  obtains
    (marker) obj as bs where "workers c = as @ (obj, WStart) # bs" "length as = i" "is_marker obj"
      "c' = c\<lparr>wg := wg c - 1, workers := as @ (obj, WDone) # bs\<rparr>"
  | (ok) obj as bs w' where "workers c = as @ (obj, WStart) # bs" "length as = i" "\<not> is_marker obj"
      "DownloadFile (Key obj) (snd (target p lp obj)) (wld c) = (None, w')"
      "c' = c\<lparr>wld := w', fslog := fslog c @ [(Key obj, snd (target p lp obj), None)],
                workers := as @ (obj, WFinish) # bs\<rparr>"
  | (failed) obj as bs w' e where "workers c = as @ (obj, WStart) # bs" "length as = i" "\<not> is_marker obj"
      "DownloadFile (Key obj) (snd (target p lp obj)) (wld c) = (Some e, w')"
      "c' = c\<lparr>wld := w', fslog := fslog c @ [(Key obj, snd (target p lp obj), Some e)],
                workers := as @ (obj, WSend e) # bs\<rparr>"
  | (finish) obj as bs where "workers c = as @ (obj, WFinish) # bs" "length as = i"
      "c' = c\<lparr>wg := wg c - 1, workers := as @ (obj, WDone) # bs\<rparr>"
proof -
  from assms have i: "i < length (workers c)"
    by (simp add: worker_step_def split: if_splits)
  obtain obj s where w: "workers c ! i = (obj, s)" by (cases "workers c ! i")
  from update_split[OF i] w have sp: "\<And>y. \<exists>as bs. workers c = as @ (obj, s) # bs \<and> (workers c)[i := y] = as @ y # bs \<and> length as = i"
    by metis
  show ?thesis
  proof (cases s)
    case WStart
    show ?thesis
    proof (cases "is_marker obj")
      case True
      from sp[of "(obj, WDone)"] obtain as bs where
        "workers c = as @ (obj, s) # bs" "(workers c)[i := (obj, WDone)] = as @ (obj, WDone) # bs" "length as = i" by blast
      with assms i w WStart True show ?thesis
        by (intro marker[of as obj bs]) (auto simp: worker_step_def is_marker_def)
    next
      case False
      obtain err w' where d: "DownloadFile (Key obj) (snd (target p lp obj)) (wld c) = (err, w')"
        by (cases "DownloadFile (Key obj) (snd (target p lp obj)) (wld c)")
      show ?thesis
      proof (cases err)
        case None
        from sp[of "(obj, WFinish)"] obtain as bs where
          "workers c = as @ (obj, s) # bs" "(workers c)[i := (obj, WFinish)] = as @ (obj, WFinish) # bs" "length as = i" by blast
        with assms i w WStart False d None show ?thesis
          by (intro ok[of as obj bs w']) (auto simp: worker_step_def is_marker_def target_def)
      next
        case (Some e)
        from sp[of "(obj, WSend e)"] obtain as bs where
          "workers c = as @ (obj, s) # bs" "(workers c)[i := (obj, WSend e)] = as @ (obj, WSend e) # bs" "length as = i" by blast
        with assms i w WStart False d Some show ?thesis
          by (intro failed[of as obj bs e w']) (auto simp: worker_step_def is_marker_def target_def)
      qed
    qed
  next
    case (WSend e)
    with assms i w show ?thesis by (simp add: worker_step_def)
  next
    case WFinish
    from sp[of "(obj, WDone)"] obtain as bs where
      "workers c = as @ (obj, s) # bs" "(workers c)[i := (obj, WDone)] = as @ (obj, WDone) # bs" "length as = i" by blast
    with assms i w WFinish show ?thesis
      by (intro finish[of as obj bs]) (auto simp: worker_step_def)
  next
    case WDone
    with assms i w show ?thesis by (simp add: worker_step_def)
  qed
qed

lemma errCh_step_cases:
  assumes "errCh_step i c = Some c'"
  obtains obj e as bs where "workers c = as @ (obj, WSend e) # bs" "length as = i"
      "mainpc c = AtCollect" "closer c \<noteq> CClosed"
      "c' = c\<lparr>errs := errs c @ [e], workers := as @ (obj, WFinish) # bs\<rparr>"
proof -
  from assms have i: "i < length (workers c)" and m: "mainpc c = AtCollect" "closer c \<noteq> CClosed"
    by (simp_all add: errCh_step_def split: if_splits)
  obtain obj s where w: "workers c ! i = (obj, s)" by (cases "workers c ! i")
  from assms i m w obtain e where s: "s = WSend e"
    by (cases s) (simp_all add: errCh_step_def)
  from update_split[OF i, of "(obj, WFinish)"] w s obtain as bs where
    "workers c = as @ (obj, WSend e) # bs" "(workers c)[i := (obj, WFinish)] = as @ (obj, WFinish) # bs" "length as = i"
    by metis
  with assms i m w s show ?thesis
    by (intro that[of as obj e bs]) (auto simp: errCh_step_def)
qed

lemma inv_pc_worker:
  assumes "worker_step p lp i c = Some c'" "inv_pc L c"
  shows "inv_pc L c'"
  using assms(1)
  by (cases rule: worker_step_cases) (use assms(2) in \<open>auto simp: inv_pc_def split: mainpc.splits\<close>)

lemma inv_workers_worker:
  assumes "worker_step p lp i c = Some c'" "inv_workers c"
  shows "inv_workers c'"
  using assms(1)
  by (cases rule: worker_step_cases) (use assms(2) in \<open>auto simp: inv_workers_def live_def returned_def\<close>)

lemma inv_log_worker:
  assumes "worker_step p lp i c = Some c'" "inv_log p lp c"
  shows "inv_log p lp c'"
  using assms(1)
  by (cases rule: worker_step_cases)
     (use assms(2) in \<open>auto simp: inv_log_def downloads_def failures_def started_def sending_def target_def List.map_filter_simps\<close>)

lemma inv_pc_errCh:
  assumes "errCh_step i c = Some c'" "inv_pc L c"
  shows "inv_pc L c'"
  using assms(1)
  by (cases rule: errCh_step_cases) (use assms(2) in \<open>auto simp: inv_pc_def split: mainpc.splits\<close>)

lemma inv_workers_errCh:
  assumes "errCh_step i c = Some c'" "inv_workers c"
  shows "inv_workers c'"
  using assms(1)
  by (cases rule: errCh_step_cases) (use assms(2) in \<open>auto simp: inv_workers_def live_def returned_def\<close>)

lemma inv_log_errCh:
  assumes "errCh_step i c = Some c'" "inv_log p lp c"
  shows "inv_log p lp c'"
  using assms(1)
  by (cases rule: errCh_step_cases)
     (use assms(2) in \<open>auto simp: inv_log_def downloads_def failures_def started_def sending_def List.map_filter_simps\<close>)

lemma inv_closer:
  assumes "closer_step c = Some c'"
  shows "inv_pc L c \<Longrightarrow> inv_pc L c'" "inv_workers c \<Longrightarrow> inv_workers c'" "inv_log p lp c \<Longrightarrow> inv_log p lp c'"
  using assms
  by (auto simp: closer_step_def inv_pc_def inv_workers_def inv_log_def returned_def downloads_def failures_def
           split: if_splits mainpc.splits)

lemma inv_exec:
  assumes "exec p lp ev c = Some c'" "inv p lp L c"
  shows "inv p lp L c'"
proof (cases ev)
  case Main
  with assms show ?thesis
    unfolding inv_def using inv_pc_main inv_workers_main inv_log_main by (metis exec.simps(1))
next
  case (Worker i)
  with assms show ?thesis
    unfolding inv_def using inv_pc_worker inv_workers_worker inv_log_worker by (metis exec.simps(2))
next
  case (ErrCh i)
  with assms show ?thesis
    unfolding inv_def using inv_pc_errCh inv_workers_errCh inv_log_errCh by (metis exec.simps(3))
next
  case Closer
  with assms show ?thesis
    unfolding inv_def using inv_closer by (metis exec.simps(4))
qed

lemma inv_run:
  "run p lp evs c = Some c' \<Longrightarrow> inv p lp L c \<Longrightarrow> inv p lp L c'"
proof (induction evs arbitrary: c)
  case Nil
  then show ?case by simp
next
  case (Cons ev evs)
  then show ?case by (auto split: option.splits dest: inv_exec)
qed

lemma inv_init:
  "inv p lp (ListObjectsV2 (s3Client (service w)) (bucketName (service w)) p True (remote w))
     (DownloadDirectory p lp w)"
  by (simp add: inv_def inv_pc_def inv_workers_def inv_log_def DownloadDirectory_def live_def
        returned_def downloads_def failures_def started_def sending_def List.map_filter_simps)

lemma weight_exec:
  assumes "exec p lp ev c = Some c'"
  shows "weight c' < weight c"
proof (cases ev)
  case Main
  with assms show ?thesis
    by (auto simp: main_step_def weight_def split: mainpc.splits list.splits option.splits if_splits cstate.splits)
next
  case (Worker i)
  with assms have "worker_step p lp i c = Some c'" by simp
  then show ?thesis
    by (cases rule: worker_step_cases) (auto simp: weight_def)
next
  case (ErrCh i)
  with assms have "errCh_step i c = Some c'" by simp
  then show ?thesis
    by (cases rule: errCh_step_cases) (auto simp: weight_def)
next
  case Closer
  with assms show ?thesis
    by (auto simp: closer_step_def weight_def split: if_splits)
qed

lemma weight_run:
  "run p lp evs c = Some c' \<Longrightarrow> length evs + weight c' \<le> weight c"
proof (induction evs arbitrary: c)
  case Nil
  then show ?case by simp
next
  case (Cons ev evs)
  then obtain c1 where 1: "exec p lp ev c = Some c1" and 2: "run p lp evs c1 = Some c'"
    by (auto split: option.splits)
  from Cons.IH[OF 2] weight_exec[OF 1] show ?case by simp
qed

lemma weight_init: "weight (DownloadDirectory p lp w) =
    4 * length (ListObjectsV2 (s3Client (service w)) (bucketName (service w)) p True (remote w)) + 4"
  by (simp add: weight_def DownloadDirectory_def)

lemma live_pos_ex:
  assumes "0 < live ws"
  shows "\<exists>i < length ws. snd (ws ! i) \<noteq> WDone"
proof -
  from assms have "filter (\<lambda>w. snd w \<noteq> WDone) ws \<noteq> []" by (auto simp: live_def)
  then obtain w where "w \<in> set ws" "snd w \<noteq> WDone" by (auto simp: filter_empty_conv)
  then show ?thesis by (metis in_set_conv_nth)
qed

lemma progress:
  assumes "inv p lp L c" "\<not> returned c"
  shows "\<exists>ev c'. exec p lp ev c = Some c'"
proof (cases "mainpc c")
  case AtRange
  then have "\<exists>c'. main_step c = Some c'"
    by (auto simp: main_step_def split: list.splits option.splits)
  then show ?thesis by (metis exec.simps(1))
next
  case AtCollect
  show ?thesis
  proof (cases "closer c = CClosed")
    case True
    with AtCollect have "\<exists>c'. main_step c = Some c'" by (simp add: main_step_def)
    then show ?thesis by (metis exec.simps(1))
  next
    case False
    with AtCollect assms(1) have cw: "closer c = CWait"
      by (cases "closer c") (auto simp: inv_def inv_pc_def)
    show ?thesis
    proof (cases "wg c = 0")
      case True
      with cw have "\<exists>c'. closer_step c = Some c'" by (simp add: closer_step_def)
      then show ?thesis by (metis exec.simps(4))
    next
      case nz: False
      with assms(1) have "0 < live (workers c)" by (auto simp: inv_def inv_workers_def)
      from live_pos_ex[OF this] obtain i where i: "i < length (workers c)" "snd (workers c ! i) \<noteq> WDone"
        by blast
      obtain obj s where w: "workers c ! i = (obj, s)" by (cases "workers c ! i")
      show ?thesis
      proof (cases s)
        case WStart
        with i w have "\<exists>c'. worker_step p lp i c = Some c'"
          by (auto simp: worker_step_def split: prod.splits)
        then show ?thesis by (metis exec.simps(2))
      next
        case (WSend e)
        with i w AtCollect False have "\<exists>c'. errCh_step i c = Some c'"
          by (auto simp: errCh_step_def)
        then show ?thesis by (metis exec.simps(3))
      next
        case WFinish
        with i w have "\<exists>c'. worker_step p lp i c = Some c'"
          by (auto simp: worker_step_def)
        then show ?thesis by (metis exec.simps(2))
      next
        case WDone
        with i w show ?thesis by simp
      qed
    qed
  qed
next
  case (Returned r)
  with assms(2) show ?thesis by (simp add: returned_def)
qed

lemma run_append:
  "run p lp (evs @ evs') c = (case run p lp evs c of None \<Rightarrow> None | Some c' \<Rightarrow> run p lp evs' c')"
  by (induction evs arbitrary: c) (auto split: option.splits)

lemma can_return:
  assumes "inv p lp L c"
  shows "\<exists>evs c'. run p lp evs c = Some c' \<and> returned c'"
  using assms
proof (induction "weight c" arbitrary: c rule: less_induct)
  case less
  show ?case
  proof (cases "returned c")
    case True
    then have "run p lp [] c = Some c \<and> returned c" by simp
    then show ?thesis by blast
  next
    case False
    from progress[OF less.prems False] obtain ev c1 where 1: "exec p lp ev c = Some c1" by blast
    from less.hyps[OF weight_exec[OF 1] inv_exec[OF 1 less.prems]]
    obtain evs c' where "run p lp evs c1 = Some c'" "returned c'" by blast
    with 1 have "run p lp (ev # evs) c = Some c' \<and> returned c'" by simp
    then show ?thesis by blast
  qed
qed

lemma DownloadFile_service: "DownloadFile k lp w = (err, w') \<Longrightarrow> service w' = service w"
  by (auto simp: DownloadFile_def Let_def split: prod.splits)

lemma service_exec:
  assumes "exec p lp ev c = Some c'"
  shows "service (wld c') = service (wld c)"
proof (cases ev)
  case Main
  with assms show ?thesis
    by (auto simp: main_step_def split: mainpc.splits list.splits option.splits if_splits)
next
  case (Worker i)
  with assms have "worker_step p lp i c = Some c'" by simp
  then show ?thesis
    by (cases rule: worker_step_cases) (auto dest: DownloadFile_service)
next
  case (ErrCh i)
  with assms have "errCh_step i c = Some c'" by simp
  then show ?thesis
    by (cases rule: errCh_step_cases) auto
next
  case Closer
  with assms show ?thesis
    by (auto simp: closer_step_def split: if_splits)
qed

lemma service_run:
  "run p lp evs c = Some c' \<Longrightarrow> service (wld c') = service (wld c)"
proof (induction evs arbitrary: c)
  case Nil
  then show ?case by simp
next
  case (Cons ev evs)
  then show ?case by (auto split: option.splits dest: service_exec)
qed

section \<open>The sequential operations\<close>

lemma FormatNat_30: "FormatNat 30 = ''30''"
  by (simp add: FormatNat.simps[of 30] FormatNat.simps[of 3] digit_char_def)

lemma FormatNat_7: "FormatNat 7 = ''7''"
  by (simp add: FormatNat.simps[of 7] digit_char_def)

lemma Sprintf_lifeCycle:
  "Sprintf lifeCycleFormat [ArgString ruleID, ArgString prefix, ArgInt n] =
     ''<LifecycleConfiguration><Rule><ID>'' @ ruleID @ ''</ID><Prefix>'' @ prefix @
     ''</Prefix><Status>Enabled</Status><Expiration><Days>'' @ FormatInt n @
     ''</Days></Expiration></Rule></LifecycleConfiguration>''"
  by (simp add: lifeCycleFormat_def)

text \<open>
  Claim C8. \<open>AddLifeCycleRule ruleID folderPath daysToExpiry\<close> makes one call,
  \<open>SetBucketLifecycle\<close> on the service's bucket, with exactly the document
  \<open><LifecycleConfiguration><Rule><ID>ruleID</ID><Prefix>prefix</Prefix><Status>Enabled</Status><Expiration><Days>n</Days></Expiration></Rule></LifecycleConfiguration>\<close>,
  where \<open>prefix\<close> is \<open>folderPath\<close> with a \<open>/\<close> appended when it does not end with one and
  \<open>n\<close> is the decimal rendering of \<open>daysToExpiry\<close>; it returns what the call returns.
  In particular \<open>AddLifeCycleRule "r1" "logs" 30\<close> submits the prefix \<open>logs/\<close>.
\<close>

theorem AddLifeCycleRule_policy:
  "AddLifeCycleRule ruleID folderPath daysToExpiry w =
     (let prefix = (if HasSuffix folderPath ''/'' then folderPath else folderPath @ ''/'');
          (err, st') = SetBucketLifecycle (s3Client (service w)) (bucketName (service w))
             (''<LifecycleConfiguration><Rule><ID>'' @ ruleID @ ''</ID><Prefix>'' @ prefix @
              ''</Prefix><Status>Enabled</Status><Expiration><Days>'' @ FormatInt daysToExpiry @
              ''</Days></Expiration></Rule></LifecycleConfiguration>'') (remote w)
      in (err, w\<lparr>remote := st'\<rparr>))
   \<and> remote (snd (AddLifeCycleRule ''r1'' ''logs'' 30 (recording_world listing failing))) =
       [CallSetBucketLifecycle ''bucket''
          ''<LifecycleConfiguration><Rule><ID>r1</ID><Prefix>logs/</Prefix><Status>Enabled</Status><Expiration><Days>30</Days></Expiration></Rule></LifecycleConfiguration>'']"
  by (simp add: AddLifeCycleRule_def Sprintf_lifeCycle Let_def recording_world_def recording_client_def
        HasSuffix_def FormatInt_def FormatNat_30)

theorem AddLifeCycleRule_policy_witness:
  "AddLifeCycleRule ''expire-tmp'' ''tmp/'' 7 (recording_world (\<lambda>p. []) (\<lambda>k. None)) =
     (None, (recording_world (\<lambda>p. []) (\<lambda>k. None))
        \<lparr>remote := [CallSetBucketLifecycle ''bucket''
          ''<LifecycleConfiguration><Rule><ID>expire-tmp</ID><Prefix>tmp/</Prefix><Status>Enabled</Status><Expiration><Days>7</Days></Expiration></Rule></LifecycleConfiguration>'']\<rparr>)"
  using AddLifeCycleRule_policy [of "''expire-tmp''" "''tmp/''" 7 "recording_world (\<lambda>p. []) (\<lambda>k. None)"]
  by (simp add: Let_def recording_world_def recording_client_def HasSuffix_def FormatInt_def FormatNat_7)

lemma Hour_ns: "24 * Hour = 86400000000000"
  by (simp add: Hour_def Minute_def Second_def Millisecond_def Microsecond_def Nanosecond_def)

text \<open>
  Claim C10. The result of \<open>UploadJSONFileWithLink\<close> does not depend on its
  \<open>expiration\<close> argument: for any two durations the operation is the same function of
  the path, the data and the state. After a successful \<open>PutObject\<close> the one presigned-URL
  request it issues has the expiry 24 hours (86400000000000 ns).
\<close>

theorem UploadJSONFileWithLink_expiration_ignored:
  "UploadJSONFileWithLink path data e1 w = UploadJSONFileWithLink path data e2 w
   \<and> UploadJSONFileWithLink path data e1 w =
       (case PutObject (s3Client (service w)) (bucketName (service w)) path data (- 1)
               \<lparr>ContentType = ''application/json''\<rparr> (remote w) of
          ((n, Some err), st') \<Rightarrow> ((None, Some err), w\<lparr>remote := st'\<rparr>)
        | ((n, None), st') \<Rightarrow>
            (case PresignedGetObject (s3Client (service w)) (bucketName (service w)) path
                    86400000000000 (urlValues (service w)) st' of
               (r, st'') \<Rightarrow> (r, w\<lparr>remote := st''\<rparr>)))"
  by (simp add: UploadJSONFileWithLink_def Let_def Hour_ns split: prod.splits option.splits)

theorem UploadJSONFileWithLink_expiration_ignored_witness:
  "remote (snd (UploadJSONFileWithLink ''a.json'' ''{}'' (5 * Minute) (recording_world (\<lambda>p. []) (\<lambda>k. None)))) =
     [CallPutObject ''bucket'' ''a.json'' ''{}'' (- 1) \<lparr>ContentType = ''application/json''\<rparr>,
      CallPresignedGetObject ''bucket'' ''a.json'' 86400000000000 [(''response-content-disposition'', [''inline''])]]
   \<and> UploadJSONFileWithLink ''a.json'' ''{}'' (5 * Minute) (recording_world (\<lambda>p. []) (\<lambda>k. None)) =
     UploadJSONFileWithLink ''a.json'' ''{}'' (48 * Hour) (recording_world (\<lambda>p. []) (\<lambda>k. None))"
proof -
  note t = UploadJSONFileWithLink_expiration_ignored
    [of "''a.json''" "''{}''" "5 * Minute" "recording_world (\<lambda>p. []) (\<lambda>k. None)" "48 * Hour"]
  have "remote (snd (UploadJSONFileWithLink ''a.json'' ''{}'' (5 * Minute) (recording_world (\<lambda>p. []) (\<lambda>k. None)))) =
     [CallPutObject ''bucket'' ''a.json'' ''{}'' (- 1) \<lparr>ContentType = ''application/json''\<rparr>,
      CallPresignedGetObject ''bucket'' ''a.json'' 86400000000000 [(''response-content-disposition'', [''inline''])]]"
    unfolding t [THEN conjunct2] by (simp add: recording_world_def recording_client_def)
  with t [THEN conjunct1] show ?thesis by (rule conjI [rotated])
qed

section \<open>The S3Service object is only read\<close>

lemmas run_eval =
  DownloadDirectory_def main_step_def worker_step_def errCh_step_def closer_step_def DownloadFile_def
  recording_world_def recording_client_def objects_under_def HasPrefix_def HasSuffix_def TrimPrefix_def
  fileName_def Let_def

text \<open>
  Claim C9. The fields of the S3Service (client handle, bucket name, default query
  parameters, and the unused \<open>lifeCycleRules\<close>) are set by \<open>NewS3Service\<close> from its
  arguments, and every operation leaves them as they were: after \<open>AddLifeCycleRule\<close>,
  \<open>UploadJSONFile\<close>, \<open>GetFileURL\<close>, \<open>UploadJSONFileWithLink\<close> and \<open>DownloadFile\<close>, and in
  every configuration that any interleaving of \<open>DownloadDirectory\<close> reaches, the object
  equals the one before the call.
\<close>

theorem S3Service_unchanged:
  "service (snd (AddLifeCycleRule ruleID folderPath daysToExpiry w)) = service w
   \<and> service (snd (UploadJSONFile path data w)) = service w
   \<and> service (snd (GetFileURL path expiration w)) = service w
   \<and> service (snd (UploadJSONFileWithLink path data expiration w)) = service w
   \<and> service (snd (DownloadFile path localPath w)) = service w
   \<and> (\<forall>evs c. run path localPath evs (DownloadDirectory path localPath w) = Some c
         \<longrightarrow> service (wld c) = service w)
   \<and> (\<forall>s st'. NewS3Service minio_New url accessKey accessSecret bucket st = (Inr s, st')
         \<longrightarrow> minio_New url accessKey accessSecret True = Inr (s3Client s)
             \<and> bucketName s = bucket \<and> lifeCycleRules s = ''''
             \<and> urlValues s = [(''response-content-disposition'', [''inline''])])"
proof (intro conjI allI impI)
  show "service (snd (AddLifeCycleRule ruleID folderPath daysToExpiry w)) = service w"
    by (simp add: AddLifeCycleRule_def Let_def split: prod.splits)
  show "service (snd (UploadJSONFile path data w)) = service w"
    by (simp add: UploadJSONFile_def Let_def split: prod.splits)
  show "service (snd (GetFileURL path expiration w)) = service w"
    by (simp add: GetFileURL_def Let_def split: prod.splits)
  show "service (snd (UploadJSONFileWithLink path data expiration w)) = service w"
    by (simp add: UploadJSONFileWithLink_def Let_def split: prod.splits option.splits)
  show "service (snd (DownloadFile path localPath w)) = service w"
    by (simp add: DownloadFile_def Let_def split: prod.splits)
next
  fix evs c
  assume "run path localPath evs (DownloadDirectory path localPath w) = Some c"
  from service_run [OF this] show "service (wld c) = service w"
    by (simp add: DownloadDirectory_def)
next
  fix s st'
  assume n: "NewS3Service minio_New url accessKey accessSecret bucket st = (Inr s, st')"
  then show "minio_New url accessKey accessSecret True = Inr (s3Client s)"
    by (auto simp: NewS3Service_def split: sum.splits prod.splits option.splits if_splits)
  from n show "bucketName s = bucket"
    by (auto simp: NewS3Service_def split: sum.splits prod.splits option.splits if_splits)
  from n show "lifeCycleRules s = ''''"
    by (auto simp: NewS3Service_def split: sum.splits prod.splits option.splits if_splits)
  from n show "urlValues s = [(''response-content-disposition'', [''inline''])]"
    by (auto simp: NewS3Service_def split: sum.splits prod.splits option.splits if_splits)
qed

theorem S3Service_unchanged_witness:
  "run ''logs'' ''/tmp'' [Main, Worker 0, Main]
      (DownloadDirectory ''logs'' ''/tmp'' (recording_world (objects_under [''logs/a'']) (\<lambda>k. None))) \<noteq> None
   \<and> map_option (\<lambda>c. service (wld c))
        (run ''logs'' ''/tmp'' [Main, Worker 0, Main]
          (DownloadDirectory ''logs'' ''/tmp'' (recording_world (objects_under [''logs/a'']) (\<lambda>k. None))))
      = Some (service (recording_world (objects_under [''logs/a'']) (\<lambda>k. None)))
   \<and> map_sum id bucketName (fst (NewS3Service (\<lambda>u k s secure. Inr (recording_client (\<lambda>p. []) (\<lambda>k. None)))
        ''play.min.io'' ''key'' ''secret'' ''bucket'' [])) = Inr ''bucket''"
proof -
  let ?w = "recording_world (objects_under [''logs/a'']) (\<lambda>k. None)"
  let ?new = "\<lambda>(u::string) (k::string) (s::string) (secure::bool). (Inr (recording_client (\<lambda>p. []) (\<lambda>k. None)) :: error + call list Client)"
  note t = S3Service_unchanged [of _ _ _ ?w "''logs''" _ _ "''/tmp''" ?new "''play.min.io''" "''key''" "''secret''" "''bucket''" "[]"]
  have r: "run ''logs'' ''/tmp'' [Main, Worker 0, Main] (DownloadDirectory ''logs'' ''/tmp'' ?w) \<noteq> None"
    by (simp add: run_eval)
  then obtain c where c: "run ''logs'' ''/tmp'' [Main, Worker 0, Main] (DownloadDirectory ''logs'' ''/tmp'' ?w) = Some c"
    by blast
  with t have "service (wld c) = service ?w" by blast
  with c have 2: "map_option (\<lambda>c. service (wld c))
        (run ''logs'' ''/tmp'' [Main, Worker 0, Main] (DownloadDirectory ''logs'' ''/tmp'' ?w)) = Some (service ?w)"
    by simp
  obtain s st' where n: "NewS3Service ?new ''play.min.io'' ''key'' ''secret'' ''bucket'' [] = (Inr s, st')"
    by (simp add: NewS3Service_def recording_client_def)
  with t have "bucketName s = ''bucket''" by blast
  with n have 3: "map_sum id bucketName (fst (NewS3Service ?new ''play.min.io'' ''key'' ''secret'' ''bucket'' [])) = Inr ''bucket''"
    by simp
  from r 2 3 show ?thesis by blast
qed

section \<open>The local path of a key\<close>

text \<open>
  Claim C4, at the prefix \<open>a\<close> over a store that holds the keys \<open>a/ab\<close> and \<open>ab\<close>, with
  the local root \<open>/tmp\<close> and both downloads succeeding. Both keys are listed under the
  prefix. The code trims \<open>a/\<close>: \<open>a/ab\<close> becomes \<open>ab\<close>, and \<open>ab\<close>, which does not begin
  with \<open>a/\<close>, stays \<open>ab\<close>. The run returns \<open>nil\<close> and the two calls made on the client
  fetch the two distinct objects to the same local file \<open>/tmp/ab\<close>: the derivation is
  not injective, and the second download overwrites the first.
\<close>

theorem local_path_collision:
  "map Key (objects_under [''a/ab'', ''ab''] ''a'') = [''a/ab'', ''ab'']
   \<and> snd (target ''a'' ''/tmp'' \<lparr>Key = ''a/ab'', Err = None\<rparr>) = ''/tmp/ab''
   \<and> snd (target ''a'' ''/tmp'' \<lparr>Key = ''ab'', Err = None\<rparr>) = ''/tmp/ab''
   \<and> map_option (\<lambda>c. (mainpc c, remote (wld c)))
         (run ''a'' ''/tmp'' [Main, Main, Main, Worker 0, Worker 1, Worker 0, Worker 1, Closer, Main]
            (DownloadDirectory ''a'' ''/tmp'' (recording_world (objects_under [''a/ab'', ''ab'']) (\<lambda>k. None))))
       = Some (Returned None,
               [CallFGetObject ''bucket'' ''a/ab'' ''/tmp/ab'', CallFGetObject ''bucket'' ''ab'' ''/tmp/ab''])"
  by (simp add: run_eval target_def)

lemma TrimPrefix_inj:
  assumes "HasPrefix k1 q" "HasPrefix k2 q" "TrimPrefix k1 q = TrimPrefix k2 q"
  shows "k1 = k2"
proof -
  from assms(1) have "k1 = q @ drop (length q) k1"
    by (metis HasPrefix_def append_take_drop_id)
  moreover from assms(2) have "k2 = q @ drop (length q) k2"
    by (metis HasPrefix_def append_take_drop_id)
  moreover from assms have "drop (length q) k1 = drop (length q) k2"
    by (simp add: TrimPrefix_def)
  ultimately show ?thesis by metis
qed

text \<open>
  Where the prefix is stripped there is no collision: two distinct keys that both
  begin with \<open>path/\<close> get distinct local paths.
\<close>

theorem local_path_injective:
  assumes "HasPrefix (Key obj1) (path @ ''/'')" and "HasPrefix (Key obj2) (path @ ''/'')"
      and "Key obj1 \<noteq> Key obj2"
  shows "snd (target path localPath obj1) \<noteq> snd (target path localPath obj2)"
  using assms TrimPrefix_inj [of "Key obj1" "path @ ''/''" "Key obj2"]
  by (auto simp: target_def fileName_def)

theorem local_path_injective_witness:
  "snd (target ''reports'' ''/tmp/out'' \<lparr>Key = ''reports/a.json'', Err = None\<rparr>) = ''/tmp/out/a.json''
   \<and> snd (target ''reports'' ''/tmp/out'' \<lparr>Key = ''reports/b.json'', Err = None\<rparr>) = ''/tmp/out/b.json''
   \<and> snd (target ''reports'' ''/tmp/out'' \<lparr>Key = ''reports/a.json'', Err = None\<rparr>)
       \<noteq> snd (target ''reports'' ''/tmp/out'' \<lparr>Key = ''reports/b.json'', Err = None\<rparr>)"
proof -
  have h1: "HasPrefix (Key \<lparr>Key = ''reports/a.json'', Err = None\<rparr>) (''reports'' @ ''/'')"
    by (simp add: HasPrefix_def)
  have h2: "HasPrefix (Key \<lparr>Key = ''reports/b.json'', Err = None\<rparr>) (''reports'' @ ''/'')"
    by (simp add: HasPrefix_def)
  have d: "Key \<lparr>Key = ''reports/a.json'', Err = None\<rparr> \<noteq> Key \<lparr>Key = ''reports/b.json'', Err = None\<rparr>"
    by simp
  from local_path_injective [OF h1 h2 d, of "''/tmp/out''"] show ?thesis
    by (simp add: target_def fileName_def TrimPrefix_def HasPrefix_def)
qed

section \<open>What a run of DownloadDirectory returns\<close>

lemma inv_reach:
  assumes "run p lp evs (DownloadDirectory p lp w) = Some c"
  shows "inv p lp (ListObjectsV2 (s3Client (service w)) (bucketName (service w)) p True (remote w)) c"
  using inv_run [OF assms inv_init] .

lemma bound_reach:
  assumes "run p lp evs (DownloadDirectory p lp w) = Some c"
  shows "length evs \<le> 4 * length (ListObjectsV2 (s3Client (service w)) (bucketName (service w)) p True (remote w)) + 4"
  using weight_run [OF assms] by (simp add: weight_init)

lemma service_reach:
  assumes "run p lp evs (DownloadDirectory p lp w) = Some c"
  shows "service (wld c) = service w"
  using service_run [OF assms] by (simp add: DownloadDirectory_def)

lemma reach_extend:
  assumes "run p lp evs c0 = Some c" "run p lp evs' c = Some c'"
  shows "run p lp (evs @ evs') c0 = Some c'"
  using assms by (simp add: run_append)

lemma live_zero_done:
  assumes "live ws = 0"
  shows "\<forall>w \<in> set ws. snd w = WDone"
  using assms by (auto simp: live_def filter_empty_conv)

lemma started_all_done:
  assumes "\<forall>w \<in> set ws. snd w = WDone"
  shows "started p lp ws = map (target p lp) (filter (\<lambda>obj. \<not> is_marker obj) (map fst ws))"
  using assms by (induction ws) (auto simp: started_def)

lemma sending_all_done:
  assumes "\<forall>w \<in> set ws. snd w = WDone"
  shows "sending ws = []"
  using assms by (induction ws) (auto simp: sending_def List.map_filter_simps)

lemma started_subset:
  "mset (started p lp ws) \<subseteq># mset (map (target p lp) (filter (\<lambda>obj. \<not> is_marker obj) (map fst ws)))"
proof (induction ws)
  case Nil
  show ?case by (simp add: started_def)
next
  case (Cons w ws)
  then show ?case
    by (auto simp: started_def intro: subset_mset.order_trans)
qed

lemma started_keys:
  assumes "d \<in> set (started p lp ws)"
  shows "\<exists>w \<in> set ws. \<not> is_marker (fst w) \<and> d = target p lp (fst w)"
  using assms by (auto simp: started_def)

lemma workers_listed:
  assumes "inv_pc L c"
  shows "fst ` set (workers c) \<subseteq> set L"
proof -
  have "set (map fst (workers c)) \<subseteq> set L"
  proof (cases "mainpc c")
    case AtRange
    with assms have "map fst (workers c) @ objectCh c = L" by (simp add: inv_pc_def)
    then show ?thesis by (metis set_append Un_upper1)
  next
    case AtCollect
    with assms show ?thesis by (simp add: inv_pc_def)
  next
    case (Returned r)
    with assms consider "map fst (workers c) = L"
      | obj where "L = map fst (workers c) @ obj # objectCh c"
      by (auto simp: inv_pc_def)
    then show ?thesis
    proof cases
      case 1
      then show ?thesis by simp
    next
      case 2
      then show ?thesis by (metis set_append Un_upper1)
    qed
  qed
  then show ?thesis by simp
qed

text \<open>The run returned after the range loop ended: every listed object was handed to a
  goroutine, every goroutine has finished, and the result is built from \<open>errs\<close>.\<close>

lemma returned_after_collect:
  assumes "inv p lp L c" "mainpc c = Returned r" "\<forall>obj \<in> set L. Err obj = None"
  shows "r = aggregate (errs c)"
    and "mset (downloads c) = mset (map (target p lp) (filter (\<lambda>obj. \<not> is_marker obj) L))"
    and "mset (failures c) = mset (errs c)"
    and "\<forall>w \<in> set (workers c). snd w = WDone"
proof -
  from assms(1) have pc: "inv_pc L c" and wk: "inv_workers c" and lg: "inv_log p lp c"
    by (simp_all add: inv_def)
  have "\<not> (\<exists>obj. Err obj = r \<and> r \<noteq> None \<and> L = map fst (workers c) @ obj # objectCh c)"
    using assms(3) by auto
  with pc assms(2) have cl: "closer c = CClosed" and ws: "map fst (workers c) = L" and r: "r = aggregate (errs c)"
    by (auto simp: inv_pc_def)
  from wk cl have "live (workers c) = 0" by (simp add: inv_workers_def)
  then have fin: "\<forall>w \<in> set (workers c). snd w = WDone" by (rule live_zero_done)
  show "r = aggregate (errs c)" by (rule r)
  show "\<forall>w \<in> set (workers c). snd w = WDone" by (rule fin)
  from lg started_all_done [OF fin, of p lp] ws
  show "mset (downloads c) = mset (map (target p lp) (filter (\<lambda>obj. \<not> is_marker obj) L))"
    by (simp add: inv_log_def)
  from lg sending_all_done [OF fin] show "mset (failures c) = mset (errs c)"
    by (simp add: inv_log_def)
qed

lemma aggregate_message:
  "Errorf aggregateFormat [ArgErrors es] = ''failed to download files from s3: ['' @ join_errors es @ '']''"
  by (simp add: Errorf_def aggregateFormat_def)

subsection \<open>When every download succeeds\<close>

lemma no_failure_exec:
  assumes "exec p lp ev c = Some c'" "inv p lp L c" "downloads_succeed (service (wld c)) p lp L"
      and "failures c = []"
  shows "failures c' = []"
proof (cases ev)
  case Main
  with assms(1,4) show ?thesis
    by (auto simp: main_step_def failures_def split: mainpc.splits list.splits option.splits if_splits)
next
  case (Worker i)
  with assms(1) have "worker_step p lp i c = Some c'" by simp
  then show ?thesis
  proof (cases rule: worker_step_cases)
    case (marker obj as bs)
    with assms(4) show ?thesis by (simp add: failures_def)
  next
    case (ok obj as bs w')
    with assms(4) show ?thesis by (simp add: failures_def List.map_filter_simps)
  next
    case (failed obj as bs w' e)
    from assms(2) have "fst ` set (workers c) \<subseteq> set L" by (simp add: inv_def workers_listed)
    with failed(1) have "obj \<in> set L" by force
    with assms(3) failed(3)
    have "fst (FGetObject (s3Client (service (wld c))) (bucketName (service (wld c))) (Key obj)
                 (snd (target p lp obj)) () (remote (wld c))) = None"
      by (simp add: downloads_succeed_def)
    with failed(4) show ?thesis
      by (simp add: DownloadFile_def Let_def split: prod.splits)
  next
    case (finish obj as bs)
    with assms(4) show ?thesis by (simp add: failures_def)
  qed
next
  case (ErrCh i)
  with assms(1) have "errCh_step i c = Some c'" by simp
  then show ?thesis
    by (cases rule: errCh_step_cases) (use assms(4) in \<open>simp add: failures_def\<close>)
next
  case Closer
  with assms(1,4) show ?thesis
    by (auto simp: closer_step_def failures_def split: if_splits)
qed

lemma no_failure_run:
  assumes "run p lp evs c = Some c'" "inv p lp L c" "downloads_succeed (service (wld c)) p lp L"
      and "failures c = []"
  shows "failures c' = []"
  using assms
proof (induction evs arbitrary: c)
  case Nil
  then show ?case by simp
next
  case (Cons ev evs)
  then obtain c1 where 1: "exec p lp ev c = Some c1" and 2: "run p lp evs c1 = Some c'"
    by (auto split: option.splits)
  from service_exec [OF 1] Cons.prems(3) have "downloads_succeed (service (wld c1)) p lp L" by simp
  with Cons.IH [OF 2 inv_exec [OF 1 Cons.prems(2)]] no_failure_exec [OF 1 Cons.prems(2,3,4)]
  show ?case by simp
qed

lemma all_succeed:
  assumes L_def: "L = ListObjectsV2 (s3Client (service w)) (bucketName (service w)) p True (remote w)"
      and "\<forall>obj \<in> set L. Err obj = None" "downloads_succeed (service w) p lp L"
      and "run p lp evs (DownloadDirectory p lp w) = Some c"
  shows "failures c = []"
    and "\<exists>evs' c'. run p lp evs' c = Some c' \<and> mainpc c' = Returned None"
    and "mainpc c = Returned r \<Longrightarrow>
           r = None \<and> mset (downloads c) = mset (map (target p lp) (filter (\<lambda>obj. \<not> is_marker obj) L))"
proof -
  have init: "failures (DownloadDirectory p lp w) = []" "service (wld (DownloadDirectory p lp w)) = service w"
    by (simp_all add: failures_def DownloadDirectory_def List.map_filter_simps)
  have nf: "failures c' = []" if "run p lp evs' (DownloadDirectory p lp w) = Some c'" for evs' c'
    using no_failure_run [OF that inv_init] assms(3) init by (simp add: L_def)
  have res: "r' = None \<and> mset (downloads c') = mset (map (target p lp) (filter (\<lambda>obj. \<not> is_marker obj) L))"
    if "run p lp evs' (DownloadDirectory p lp w) = Some c'" "mainpc c' = Returned r'" for evs' c' r'
  proof -
    from inv_reach [OF that(1)] have i: "inv p lp L c'" by (simp add: L_def)
    from returned_after_collect [OF i that(2) assms(2)] nf [OF that(1)]
    show ?thesis by (simp add: aggregate_def)
  qed
  show "failures c = []" by (rule nf [OF assms(4)])
  show "mainpc c = Returned r \<Longrightarrow>
           r = None \<and> mset (downloads c) = mset (map (target p lp) (filter (\<lambda>obj. \<not> is_marker obj) L))"
    by (rule res [OF assms(4)])
  from can_return [OF inv_reach [OF assms(4)]] obtain evs' c' where
    e: "run p lp evs' c = Some c'" "returned c'" by blast
  then obtain r' where r': "mainpc c' = Returned r'" by (cases "mainpc c'") (auto simp: returned_def)
  from res [OF reach_extend [OF assms(4) e(1)] r'] r' e(1)
  show "\<exists>evs' c'. run p lp evs' c = Some c' \<and> mainpc c' = Returned None" by blast
qed

text \<open>
  Claim C5, at the prefix \<open>logs/\<close> over a store that holds the one object \<open>logs/x.txt\<close>,
  with the local root \<open>/data\<close> and the download succeeding. The run returns \<open>nil\<close>, but
  the code trims \<open>logs//\<close> (the prefix with the separator it appends), which does not
  begin the key: the file name it computes is the whole key, and the one call made on
  the client fetches the object to \<open>/data/logs/x.txt\<close>. Nothing is fetched to
  \<open>/data/x.txt\<close>, the local root with the prefix-stripped key appended.
\<close>

theorem prefix_not_stripped:
  "fileName ''logs/'' \<lparr>Key = ''logs/x.txt'', Err = None\<rparr> = ''logs/x.txt''
   \<and> map_option (\<lambda>c. (mainpc c, remote (wld c)))
         (run ''logs/'' ''/data'' [Main, Main, Worker 0, Worker 0, Closer, Main]
            (DownloadDirectory ''logs/'' ''/data'' (recording_world (objects_under [''logs/x.txt'']) (\<lambda>k. None))))
       = Some (Returned None, [CallFGetObject ''bucket'' ''logs/x.txt'' ''/data/logs/x.txt''])"
  by (simp add: run_eval)

text \<open>
  Claim C1, as amended. When the listing reports no enumeration error, every run of
  \<open>DownloadDirectory\<close> is finite and can always go on to return, and when it has
  returned: \<open>DownloadFile\<close> has been called exactly once for every listed object that is
  not a marker; the errors collected from \<open>errCh\<close> are, as a multiset, exactly the errors
  of the calls that failed, one per failed call, none dropped; the result is \<open>nil\<close>
  exactly when no call failed; and otherwise it is the single error whose message is
  \<open>failed to download files from s3: \<close> followed by the whole list of collected errors in
  the order they were received, in brackets.
\<close>

theorem DownloadDirectory_aggregate:
  assumes "\<forall>obj \<in> set (ListObjectsV2 (s3Client (service w)) (bucketName (service w)) path True (remote w)).
             Err obj = None"
      and "run path localPath evs (DownloadDirectory path localPath w) = Some c"
  shows "length evs \<le> 4 * length (ListObjectsV2 (s3Client (service w)) (bucketName (service w)) path True (remote w)) + 4
       \<and> (\<exists>evs' c'. run path localPath evs' c = Some c' \<and> returned c')
       \<and> (\<forall>r. mainpc c = Returned r \<longrightarrow>
             mset (downloads c) =
               mset (map (target path localPath)
                      (filter (\<lambda>obj. \<not> HasSuffix (Key obj) ''/'')
                         (ListObjectsV2 (s3Client (service w)) (bucketName (service w)) path True (remote w))))
           \<and> mset (errs c) = mset (failures c)
           \<and> length (errs c) = length (failures c)
           \<and> (r = None \<longleftrightarrow> failures c = [])
           \<and> (failures c \<noteq> [] \<longrightarrow>
                 r = Some (''failed to download files from s3: ['' @ join_errors (errs c) @ '']'')))"
proof (intro conjI allI impI)
  let ?L = "ListObjectsV2 (s3Client (service w)) (bucketName (service w)) path True (remote w)"
  show "length evs \<le> 4 * length ?L + 4" by (rule bound_reach [OF assms(2)])
  show "\<exists>evs' c'. run path localPath evs' c = Some c' \<and> returned c'"
    by (rule can_return [OF inv_reach [OF assms(2)]])
  fix r
  assume r: "mainpc c = Returned r"
  note a = returned_after_collect [OF inv_reach [OF assms(2)] r assms(1)]
  from a(2) show "mset (downloads c) = mset (map (target path localPath) (filter (\<lambda>obj. \<not> HasSuffix (Key obj) ''/'') ?L))"
    by (simp add: is_marker_def)
  from a(3) show m: "mset (errs c) = mset (failures c)" by simp
  then show "length (errs c) = length (failures c)" by (rule mset_eq_length)
  from m have e: "errs c = [] \<longleftrightarrow> failures c = []"
    by (metis mset_zero_iff)
  with a(1) show "r = None \<longleftrightarrow> failures c = []" by (simp add: aggregate_def)
  assume "failures c \<noteq> []"
  with e a(1) show "r = Some (''failed to download files from s3: ['' @ join_errors (errs c) @ '']'')"
    by (simp add: aggregate_def aggregate_message)
qed

theorem DownloadDirectory_aggregate_witness:
  "map_option mainpc
     (run ''p'' ''/tmp'' [Main, Main, Main, Main, Worker 0, Worker 2, Worker 1, ErrCh 0, ErrCh 2, Worker 1,
                          Worker 0, Worker 2, Closer, Main]
        (DownloadDirectory ''p'' ''/tmp'' (recording_world (objects_under [''p/a'', ''p/b'', ''p/c''])
           (\<lambda>k. if k = ''p/b'' then None else Some (''no '' @ k)))))
     = Some (Returned (Some ''failed to download files from s3: [no p/a no p/c]''))
   \<and> map_option failures
     (run ''p'' ''/tmp'' [Main, Main, Main, Main, Worker 0, Worker 2, Worker 1, ErrCh 0, ErrCh 2, Worker 1,
                          Worker 0, Worker 2, Closer, Main]
        (DownloadDirectory ''p'' ''/tmp'' (recording_world (objects_under [''p/a'', ''p/b'', ''p/c''])
           (\<lambda>k. if k = ''p/b'' then None else Some (''no '' @ k)))))
     = Some [''no p/a'', ''no p/c'']"
proof -
  let ?w = "recording_world (objects_under [''p/a'', ''p/b'', ''p/c''])
              (\<lambda>k. if k = ''p/b'' then None else Some (''no '' @ k))"
  let ?evs = "[Main, Main, Main, Main, Worker 0, Worker 2, Worker 1, ErrCh 0, ErrCh 2, Worker 1,
               Worker 0, Worker 2, Closer, Main]"
  have h1: "\<forall>obj \<in> set (ListObjectsV2 (s3Client (service ?w)) (bucketName (service ?w)) ''p'' True (remote ?w)).
              Err obj = None"
    by (simp add: run_eval)
  have "map_option (\<lambda>c. (returned c, failures c, errs c)) (run ''p'' ''/tmp'' ?evs (DownloadDirectory ''p'' ''/tmp'' ?w))
          = Some (True, [''no p/a'', ''no p/c''], [''no p/a'', ''no p/c''])"
    by (simp add: run_eval returned_def failures_def List.map_filter_simps)
  then obtain c r where c: "run ''p'' ''/tmp'' ?evs (DownloadDirectory ''p'' ''/tmp'' ?w) = Some c"
    and r: "mainpc c = Returned r" and f: "failures c = [''no p/a'', ''no p/c'']"
    and e: "errs c = [''no p/a'', ''no p/c'']"
    by (cases "run ''p'' ''/tmp'' ?evs (DownloadDirectory ''p'' ''/tmp'' ?w)")
       (auto simp: returned_def split: mainpc.splits)
  from DownloadDirectory_aggregate [OF h1 c] r f e
  have "r = Some ''failed to download files from s3: [no p/a no p/c]''"
    by simp
  with c r f show ?thesis by simp
qed

text \<open>
  With an enumeration error in the listing the result is that error: it is not
  \<open>nil\<close> although no download failed, and a download that failed before is not reported.
\<close>

theorem DownloadDirectory_aggregate_counterexample:
  "map_option (\<lambda>c. (mainpc c, failures c))
     (run ''p'' ''/tmp'' [Main]
        (DownloadDirectory ''p'' ''/tmp''
           (recording_world (\<lambda>p. [\<lparr>Key = '''', Err = Some ''listing failed''\<rparr>]) (\<lambda>k. None))))
     = Some (Returned (Some ''listing failed''), [])
   \<and> map_option (\<lambda>c. (mainpc c, failures c))
     (run ''p'' ''/tmp'' [Main, Worker 0, Main]
        (DownloadDirectory ''p'' ''/tmp''
           (recording_world (\<lambda>p. [\<lparr>Key = ''p/a'', Err = None\<rparr>, \<lparr>Key = '''', Err = Some ''listing failed''\<rparr>])
              (\<lambda>k. Some ''timeout''))))
     = Some (Returned (Some ''listing failed''), [''timeout''])"
  by (simp add: run_eval failures_def List.map_filter_simps)

lemma download_listed:
  assumes "run p lp evs (DownloadDirectory p lp w) = Some c" "d \<in> set (downloads c)"
  shows "\<exists>obj \<in> set (ListObjectsV2 (s3Client (service w)) (bucketName (service w)) p True (remote w)).
           \<not> is_marker obj \<and> d = target p lp obj"
proof -
  let ?L = "ListObjectsV2 (s3Client (service w)) (bucketName (service w)) p True (remote w)"
  from inv_reach [OF assms(1)] have lg: "inv_log p lp c" and pc: "inv_pc ?L c"
    by (simp_all add: inv_def)
  from lg have "set (downloads c) = set (started p lp (workers c))"
    by (auto simp: inv_log_def dest: mset_eq_setD)
  with assms(2) started_keys obtain x where "x \<in> set (workers c)" "\<not> is_marker (fst x)"
    "d = target p lp (fst x)" by blast
  with workers_listed [OF pc] show ?thesis by auto
qed

text \<open>
  Claim C6, as amended. For a descriptor whose key ends with \<open>/\<close>, \<open>DownloadDirectory\<close>
  makes no call of \<open>DownloadFile\<close>: in every configuration of every run, no download
  made has a key that ends with \<open>/\<close> (the goroutine it starts for the descriptor returns
  at once). Consequently, when the listing holds only such descriptors, without
  enumeration error, every run is finite, can always go on to return \<open>nil\<close>, returns
  nothing else, and downloads nothing.
\<close>

theorem markers_not_downloaded:
  "(\<forall>evs c. run path localPath evs (DownloadDirectory path localPath w) = Some c \<longrightarrow>
       (\<forall>d \<in> set (downloads c). \<not> HasSuffix (fst d) ''/''))
   \<and> ((\<forall>obj \<in> set (ListObjectsV2 (s3Client (service w)) (bucketName (service w)) path True (remote w)).
          Err obj = None \<and> HasSuffix (Key obj) ''/'') \<longrightarrow>
       (\<forall>evs c. run path localPath evs (DownloadDirectory path localPath w) = Some c \<longrightarrow>
            length evs \<le> 4 * length (ListObjectsV2 (s3Client (service w)) (bucketName (service w)) path True (remote w)) + 4
          \<and> downloads c = []
          \<and> (\<exists>evs' c'. run path localPath evs' c = Some c' \<and> mainpc c' = Returned None)
          \<and> (\<forall>r. mainpc c = Returned r \<longrightarrow> r = None)))"
proof -
  let ?L = "ListObjectsV2 (s3Client (service w)) (bucketName (service w)) path True (remote w)"
  have 1: "\<forall>d \<in> set (downloads c). \<not> HasSuffix (fst d) ''/''"
    if "run path localPath evs (DownloadDirectory path localPath w) = Some c" for evs c
    using download_listed [OF that] by (fastforce simp: is_marker_def target_def)
  have 2: "length evs \<le> 4 * length ?L + 4 \<and> downloads c = []
          \<and> (\<exists>evs' c'. run path localPath evs' c = Some c' \<and> mainpc c' = Returned None)
          \<and> (\<forall>r. mainpc c = Returned r \<longrightarrow> r = None)"
    if m: "\<forall>obj \<in> set ?L. Err obj = None \<and> HasSuffix (Key obj) ''/''"
      and run: "run path localPath evs (DownloadDirectory path localPath w) = Some c" for evs c
  proof -
    from m have e: "\<forall>obj \<in> set ?L. Err obj = None" by simp
    from m have ds: "downloads_succeed (service w) path localPath ?L"
      by (simp add: downloads_succeed_def is_marker_def)
    note a = all_succeed [OF refl e ds run]
    have "d \<notin> set (downloads c)" for d
    proof
      assume "d \<in> set (downloads c)"
      from download_listed [OF run this] obtain obj where "\<not> is_marker obj" "obj \<in> set ?L" by auto
      with m show False by (simp add: is_marker_def)
    qed
    then have "downloads c = []" by (cases "downloads c") auto
    with bound_reach [OF run] a(2) a(3) show ?thesis by blast
  qed
  from 1 2 show ?thesis by blast
qed

theorem markers_not_downloaded_witness:
  "map_option (\<lambda>c. (mainpc c, downloads c))
     (run ''p'' ''/tmp'' [Main, Main, Main, Worker 1, Worker 0, Closer, Main]
        (DownloadDirectory ''p'' ''/tmp'' (recording_world (objects_under [''p/'', ''p/sub/'']) (\<lambda>k. None))))
     = Some (Returned None, [])"
proof -
  let ?w = "recording_world (objects_under [''p/'', ''p/sub/'']) (\<lambda>k. None)"
  let ?evs = "[Main, Main, Main, Worker 1, Worker 0, Closer, Main]"
  have h: "\<forall>obj \<in> set (ListObjectsV2 (s3Client (service ?w)) (bucketName (service ?w)) ''p'' True (remote ?w)).
              Err obj = None \<and> HasSuffix (Key obj) ''/''"
    by (simp add: run_eval)
  have "map_option returned (run ''p'' ''/tmp'' ?evs (DownloadDirectory ''p'' ''/tmp'' ?w)) = Some True"
    by (simp add: run_eval returned_def)
  then obtain c r where c: "run ''p'' ''/tmp'' ?evs (DownloadDirectory ''p'' ''/tmp'' ?w) = Some c"
    and r: "mainpc c = Returned r"
    by (cases "run ''p'' ''/tmp'' ?evs (DownloadDirectory ''p'' ''/tmp'' ?w)")
       (auto simp: returned_def split: mainpc.splits)
  from markers_not_downloaded [of "''p''" "''/tmp''" ?w] h c r
  have "downloads c = [] \<and> r = None" by blast
  with c r show ?thesis by simp
qed

text \<open>
  After the first iteration of the range loop over a listing that holds one marker, a
  goroutine has been started for the marker and the wait group counts it.
\<close>

theorem marker_worker_dispatched:
  "map_option (\<lambda>c. (workers c, wg c))
     (run ''p'' ''/tmp'' [Main]
        (DownloadDirectory ''p'' ''/tmp'' (recording_world (objects_under [''p/'']) (\<lambda>k. None))))
     = Some ([(\<lparr>Key = ''p/'', Err = None\<rparr>, WStart)], 1)"
  by (simp add: run_eval)

section \<open>The scenario of reports/2024\<close>

text \<open>
  Claim C3, at its own input: remote prefix \<open>reports/2024/\<close>, local root \<open>/tmp/out\<close>,
  the keys \<open>reports/2024/\<close> (a marker), \<open>reports/2024/a.json\<close> and
  \<open>reports/2024/b.json\<close>, both downloads succeeding. The run returns \<open>nil\<close> and the
  marker is not fetched, but the code trims \<open>reports/2024//\<close>, which begins no key:
  the two calls made on the client fetch the files to \<open>/tmp/out/reports/2024/a.json\<close>
  and \<open>/tmp/out/reports/2024/b.json\<close>, not to \<open>/tmp/out/a.json\<close> and
  \<open>/tmp/out/b.json\<close>.
\<close>

theorem scenario_reports_paths:
  "map_option (\<lambda>c. (mainpc c, remote (wld c)))
     (run ''reports/2024/'' ''/tmp/out'' [Main, Main, Main, Main, Worker 0, Worker 1, Worker 2, Worker 1, Worker 2, Closer, Main]
        (DownloadDirectory ''reports/2024/'' ''/tmp/out'' scenario_world))
   = Some (Returned None,
           [CallFGetObject ''bucket'' ''reports/2024/a.json'' ''/tmp/out/reports/2024/a.json'',
            CallFGetObject ''bucket'' ''reports/2024/b.json'' ''/tmp/out/reports/2024/b.json''])"
  by (simp add: scenario_world_def run_eval)

section \<open>A listing that reports an error\<close>

lemma prefix_before_error:
  assumes "ws @ rest = pre @ bad # post" "\<forall>x \<in> set ws. Err x = None" "Err bad \<noteq> None"
  shows "\<exists>k \<le> length pre. ws = take k pre"
  using assms
proof (induction ws arbitrary: pre)
  case Nil
  have "0 \<le> length pre \<and> [] = take 0 pre" by simp
  then show ?case by blast
next
  case (Cons x ws)
  show ?case
  proof (cases pre)
    case Nil
    with Cons.prems show ?thesis by auto
  next
    case (Cons y pre')
    with Cons.prems have "ws @ rest = pre' @ bad # post" "\<forall>x \<in> set ws. Err x = None" "x = y"
      by simp_all
    with Cons.IH [of pre'] Cons.prems(3) obtain k where "k \<le> length pre'" "ws = take k pre'" by blast
    with Cons \<open>x = y\<close> have "Suc k \<le> length pre \<and> x # ws = take (Suc k) pre" by simp
    then show ?thesis by blast
  qed
qed

lemma first_error_unique:
  assumes "ws @ obj # rest = pre @ bad # post" "\<forall>x \<in> set ws. Err x = None"
      and "\<forall>x \<in> set pre. Err x = None" "Err obj \<noteq> None" "Err bad \<noteq> None"
  shows "ws = pre \<and> obj = bad"
  using assms
proof (induction ws arbitrary: pre)
  case Nil
  then show ?case by (cases pre) auto
next
  case (Cons x ws)
  then show ?case by (cases pre) auto
qed

lemma take_targets_subset:
  "mset (map f (filter P (take k xs))) \<subseteq># mset (map f (filter P xs))"
proof -
  have "mset (map f (filter P xs)) =
        mset (map f (filter P (take k xs))) + mset (map f (filter P (drop k xs)))"
    by (metis append_take_drop_id filter_append map_append mset_append)
  then show ?thesis by simp
qed

lemma error_listing_shape:
  assumes "inv p lp (pre @ bad # post) c" "\<forall>obj \<in> set pre. Err obj = None" "Err bad = Some e"
  shows "mainpc c \<noteq> AtCollect"
    and "\<exists>k \<le> length pre. map fst (workers c) = take k pre"
    and "mainpc c = Returned r \<Longrightarrow> r = Some e \<and> map fst (workers c) = pre"
proof -
  from assms(1) have pc: "inv_pc (pre @ bad # post) c" and wk: "inv_workers c"
    by (simp_all add: inv_def)
  from wk have ok: "\<forall>x \<in> set (map fst (workers c)). Err x = None"
    by (auto simp: inv_workers_def)
  have notall: "map fst (workers c) \<noteq> pre @ bad # post"
  proof
    assume "map fst (workers c) = pre @ bad # post"
    with ok have "Err bad = None" by simp
    with assms(3) show False by simp
  qed
  from assms(3) have bad: "Err bad \<noteq> None" by simp
  show "mainpc c \<noteq> AtCollect"
    using pc notall by (auto simp: inv_pc_def)
  have ret: "r = Some e \<and> map fst (workers c) = pre" if "mainpc c = Returned r" for r
  proof -
    from pc that notall obtain obj where o: "Err obj = r" "r \<noteq> None"
      "pre @ bad # post = map fst (workers c) @ obj # objectCh c"
      by (auto simp: inv_pc_def)
    from first_error_unique [OF o(3) [symmetric] ok assms(2) _ bad] o(1,2)
    have "map fst (workers c) = pre \<and> obj = bad" by simp
    with o(1) assms(3) show ?thesis by simp
  qed
  show "mainpc c = Returned r \<Longrightarrow> r = Some e \<and> map fst (workers c) = pre" by (rule ret)
  show "\<exists>k \<le> length pre. map fst (workers c) = take k pre"
  proof (cases "mainpc c")
    case AtRange
    with pc have "map fst (workers c) @ objectCh c = pre @ bad # post" by (simp add: inv_pc_def)
    from prefix_before_error [OF this ok bad] show ?thesis .
  next
    case AtCollect
    with \<open>mainpc c \<noteq> AtCollect\<close> show ?thesis by simp
  next
    case (Returned r')
    from ret [OF this] have "map fst (workers c) = take (length pre) pre" by simp
    then show ?thesis by blast
  qed
qed

text \<open>
  Claim C2. When entry K of the listing is the first to report an enumeration error
  (the entries \<open>pre\<close> before it report none), every run of \<open>DownloadDirectory\<close> is
  finite, its caller is never blocked, it can always go on to return, and the value it
  returns is that enumeration error itself. In every configuration of every run the
  goroutines started are those of the first \<open>k\<close> entries for some \<open>k\<close> not beyond K,
  so none is started for an entry at or after K, and the downloads made are among those
  of the objects before K.
\<close>

theorem enumeration_error_returned:
  assumes "ListObjectsV2 (s3Client (service w)) (bucketName (service w)) path True (remote w) = pre @ bad # post"
      and "\<forall>obj \<in> set pre. Err obj = None"
      and "Err bad = Some e"
      and "run path localPath evs (DownloadDirectory path localPath w) = Some c"
  shows "length evs \<le> 4 * length (pre @ bad # post) + 4
       \<and> (\<not> returned c \<longrightarrow> main_step c \<noteq> None)
       \<and> (\<exists>evs' c'. run path localPath evs' c = Some c' \<and> mainpc c' = Returned (Some e))
       \<and> (\<forall>r. mainpc c = Returned r \<longrightarrow> r = Some e \<and> map fst (workers c) = pre)
       \<and> (\<exists>k \<le> length pre. map fst (workers c) = take k pre)
       \<and> mset (downloads c) \<subseteq>#
           mset (map (target path localPath) (filter (\<lambda>obj. \<not> HasSuffix (Key obj) ''/'') pre))"
proof (intro conjI allI impI)
  from inv_reach [OF assms(4)] assms(1) have i: "inv path localPath (pre @ bad # post) c" by simp
  note s = error_listing_shape [OF i assms(2,3)]
  from bound_reach [OF assms(4)] assms(1) show "length evs \<le> 4 * length (pre @ bad # post) + 4" by simp
  show "\<exists>k \<le> length pre. map fst (workers c) = take k pre" by (rule s(2))
  then obtain k where k: "map fst (workers c) = take k pre" by blast
  from i have "mset (downloads c) = mset (started path localPath (workers c))"
    by (simp add: inv_def inv_log_def)
  also have "\<dots> \<subseteq># mset (map (target path localPath) (filter (\<lambda>obj. \<not> is_marker obj) (take k pre)))"
    using started_subset [of path localPath "workers c"] k by simp
  also have "\<dots> \<subseteq># mset (map (target path localPath) (filter (\<lambda>obj. \<not> is_marker obj) pre))"
    by (rule take_targets_subset)
  finally show "mset (downloads c) \<subseteq>#
      mset (map (target path localPath) (filter (\<lambda>obj. \<not> HasSuffix (Key obj) ''/'') pre))"
    by (simp add: is_marker_def)
  from can_return [OF i] obtain evs' c' where e: "run path localPath evs' c = Some c'" "returned c'"
    by blast
  then obtain r' where r': "mainpc c' = Returned r'" by (cases "mainpc c'") (auto simp: returned_def)
  from inv_run [OF e(1) i] have "inv path localPath (pre @ bad # post) c'" .
  from error_listing_shape(3) [OF this assms(2,3) r'] r' e(1)
  show "\<exists>evs' c'. run path localPath evs' c = Some c' \<and> mainpc c' = Returned (Some e)" by blast
  {
    fix r
    assume "mainpc c = Returned r"
    from s(3) [OF this] show "r = Some e" and "map fst (workers c) = pre" by simp_all
  }
  assume "\<not> returned c"
  with s(1) have "mainpc c = AtRange" by (cases "mainpc c") (auto simp: returned_def)
  then show "main_step c \<noteq> None"
    by (auto simp: main_step_def split: list.splits option.splits)
qed

theorem enumeration_error_returned_witness:
  "map_option (\<lambda>c. (mainpc c, map fst (workers c), downloads c))
     (run ''p'' ''/tmp'' [Main, Worker 0, Main, Main]
        (DownloadDirectory ''p'' ''/tmp''
           (recording_world (\<lambda>p. [\<lparr>Key = ''p/a'', Err = None\<rparr>, \<lparr>Key = ''p/b'', Err = None\<rparr>,
                                   \<lparr>Key = '''', Err = Some ''listing failed''\<rparr>, \<lparr>Key = ''p/c'', Err = None\<rparr>])
              (\<lambda>k. None))))
   = Some (Returned (Some ''listing failed''),
           [\<lparr>Key = ''p/a'', Err = None\<rparr>, \<lparr>Key = ''p/b'', Err = None\<rparr>],
           [(''p/a'', ''/tmp/a'')])"
proof -
  let ?w = "recording_world (\<lambda>p. [\<lparr>Key = ''p/a'', Err = None\<rparr>, \<lparr>Key = ''p/b'', Err = None\<rparr>,
                                   \<lparr>Key = '''', Err = Some ''listing failed''\<rparr>, \<lparr>Key = ''p/c'', Err = None\<rparr>])
              (\<lambda>k. None)"
  let ?evs = "[Main, Worker 0, Main, Main]"
  have L: "ListObjectsV2 (s3Client (service ?w)) (bucketName (service ?w)) ''p'' True (remote ?w)
     = [\<lparr>Key = ''p/a'', Err = None\<rparr>, \<lparr>Key = ''p/b'', Err = None\<rparr>]
       @ \<lparr>Key = '''', Err = Some ''listing failed''\<rparr> # [\<lparr>Key = ''p/c'', Err = None\<rparr>]"
    by (simp add: run_eval)
  have h2: "\<forall>obj \<in> set [\<lparr>Key = ''p/a'', Err = None\<rparr>, \<lparr>Key = ''p/b'', Err = None\<rparr>]. Err obj = None"
    by simp
  have h3: "Err \<lparr>Key = '''', Err = Some ''listing failed''\<rparr> = Some ''listing failed''" by simp
  have "map_option (\<lambda>c. (returned c, downloads c)) (run ''p'' ''/tmp'' ?evs (DownloadDirectory ''p'' ''/tmp'' ?w))
          = Some (True, [(''p/a'', ''/tmp/a'')])"
    by (simp add: run_eval returned_def downloads_def)
  then obtain c r where c: "run ''p'' ''/tmp'' ?evs (DownloadDirectory ''p'' ''/tmp'' ?w) = Some c"
    and r: "mainpc c = Returned r" and d: "downloads c = [(''p/a'', ''/tmp/a'')]"
    by (cases "run ''p'' ''/tmp'' ?evs (DownloadDirectory ''p'' ''/tmp'' ?w)")
       (auto simp: returned_def split: mainpc.splits)
  from enumeration_error_returned [OF L h2 h3 c] r
  have "r = Some ''listing failed'' \<and> map fst (workers c) = [\<lparr>Key = ''p/a'', Err = None\<rparr>, \<lparr>Key = ''p/b'', Err = None\<rparr>]"
    by blast
  with c r d show ?thesis by simp
qed

section \<open>The goroutines left behind by the early return\<close>

text \<open>
  Claim C7, at the listing \<open>[p/a, error]\<close> where the download of \<open>p/a\<close> fails. The
  goroutine of \<open>p/a\<close> runs its download between the two iterations of the range loop;
  the second iteration returns the enumeration error at once. In the configuration
  reached the caller has returned, the goroutine closing \<open>errCh\<close> was never started, the
  wait group still counts the worker, the worker stands at \<open>errCh <- err\<close>, and no
  goroutine can move: the worker was not awaited and stays blocked for ever.
\<close>

theorem early_return_leaves_worker_blocked:
  "map_option (\<lambda>c. (mainpc c, workers c, wg c, closer c, errs c))
     (run ''p'' ''/tmp'' [Main, Worker 0, Main]
        (DownloadDirectory ''p'' ''/tmp''
           (recording_world (\<lambda>p. [\<lparr>Key = ''p/a'', Err = None\<rparr>, \<lparr>Key = '''', Err = Some ''listing failed''\<rparr>])
              (\<lambda>k. Some ''timeout''))))
   = Some (Returned (Some ''listing failed''), [(\<lparr>Key = ''p/a'', Err = None\<rparr>, WSend ''timeout'')], 1, CNotStarted, [])
   \<and> (\<forall>ev. map_option (exec ''p'' ''/tmp'' ev)
     (run ''p'' ''/tmp'' [Main, Worker 0, Main]
        (DownloadDirectory ''p'' ''/tmp''
           (recording_world (\<lambda>p. [\<lparr>Key = ''p/a'', Err = None\<rparr>, \<lparr>Key = '''', Err = Some ''listing failed''\<rparr>])
              (\<lambda>k. Some ''timeout'')))) = Some None)"
proof (intro conjI allI)
  show "map_option (\<lambda>c. (mainpc c, workers c, wg c, closer c, errs c))
     (run ''p'' ''/tmp'' [Main, Worker 0, Main]
        (DownloadDirectory ''p'' ''/tmp''
           (recording_world (\<lambda>p. [\<lparr>Key = ''p/a'', Err = None\<rparr>, \<lparr>Key = '''', Err = Some ''listing failed''\<rparr>])
              (\<lambda>k. Some ''timeout''))))
   = Some (Returned (Some ''listing failed''), [(\<lparr>Key = ''p/a'', Err = None\<rparr>, WSend ''timeout'')], 1, CNotStarted, [])"
    by (simp add: run_eval)
next
  fix ev
  show "map_option (exec ''p'' ''/tmp'' ev)
     (run ''p'' ''/tmp'' [Main, Worker 0, Main]
        (DownloadDirectory ''p'' ''/tmp''
           (recording_world (\<lambda>p. [\<lparr>Key = ''p/a'', Err = None\<rparr>, \<lparr>Key = '''', Err = Some ''listing failed''\<rparr>])
              (\<lambda>k. Some ''timeout'')))) = Some None"
  proof (cases ev)
    case Main
    then show ?thesis by (simp add: run_eval)
  next
    case (Worker i)
    then show ?thesis by (cases i) (simp_all add: run_eval)
  next
    case (ErrCh i)
    then show ?thesis by (simp add: run_eval)
  next
    case Closer
    then show ?thesis by (simp add: run_eval)
  qed
qed

text \<open>
  Whenever the listing reports an enumeration error, in every configuration of every
  run the goroutine that waits for the wait group and closes \<open>errCh\<close> has not been
  started, nothing has been received from \<open>errCh\<close> and no send on it can complete: a
  worker whose download failed never gets past \<open>errCh <- err\<close>.
\<close>

theorem enumeration_error_never_drains:
  assumes "ListObjectsV2 (s3Client (service w)) (bucketName (service w)) path True (remote w) = pre @ bad # post"
      and "\<forall>obj \<in> set pre. Err obj = None"
      and "Err bad = Some e"
      and "run path localPath evs (DownloadDirectory path localPath w) = Some c"
  shows "closer c = CNotStarted \<and> errs c = [] \<and> closer_step c = None \<and> (\<forall>i. errCh_step i c = None)"
proof -
  from inv_reach [OF assms(4)] assms(1) have i: "inv path localPath (pre @ bad # post) c" by simp
  note s = error_listing_shape [OF i assms(2,3)]
  from i have pc: "inv_pc (pre @ bad # post) c" by (simp add: inv_def)
  have "closer c = CNotStarted \<and> errs c = []"
  proof (cases "mainpc c")
    case AtRange
    with pc show ?thesis by (simp add: inv_pc_def)
  next
    case AtCollect
    with s(1) show ?thesis by simp
  next
    case (Returned r)
    from s(3) [OF this] have "map fst (workers c) \<noteq> pre @ bad # post" by simp
    with pc Returned show ?thesis by (auto simp: inv_pc_def)
  qed
  moreover from s(1) have "\<forall>i. errCh_step i c = None" by (simp add: errCh_step_def)
  ultimately show ?thesis by (simp add: closer_step_def)
qed

theorem enumeration_error_never_drains_witness:
  "map_option (\<lambda>c. (closer c, errs c, closer_step c, errCh_step 0 c))
     (run ''p'' ''/tmp'' [Main, Worker 0, Main]
        (DownloadDirectory ''p'' ''/tmp''
           (recording_world (\<lambda>p. [\<lparr>Key = ''p/a'', Err = None\<rparr>, \<lparr>Key = '''', Err = Some ''listing failed''\<rparr>])
              (\<lambda>k. Some ''timeout''))))
   = Some (CNotStarted, [], None, None)"
proof -
  let ?w = "recording_world (\<lambda>p. [\<lparr>Key = ''p/a'', Err = None\<rparr>, \<lparr>Key = '''', Err = Some ''listing failed''\<rparr>])
              (\<lambda>k. Some ''timeout'')"
  have L: "ListObjectsV2 (s3Client (service ?w)) (bucketName (service ?w)) ''p'' True (remote ?w)
     = [\<lparr>Key = ''p/a'', Err = None\<rparr>] @ \<lparr>Key = '''', Err = Some ''listing failed''\<rparr> # []"
    by (simp add: run_eval)
  have h2: "\<forall>obj \<in> set [\<lparr>Key = ''p/a'', Err = None\<rparr>]. Err obj = None" by simp
  have h3: "Err \<lparr>Key = '''', Err = Some ''listing failed''\<rparr> = Some ''listing failed''" by simp
  have "run ''p'' ''/tmp'' [Main, Worker 0, Main] (DownloadDirectory ''p'' ''/tmp'' ?w) \<noteq> None"
    by (simp add: run_eval)
  then obtain c where c: "run ''p'' ''/tmp'' [Main, Worker 0, Main] (DownloadDirectory ''p'' ''/tmp'' ?w) = Some c"
    by blast
  from enumeration_error_never_drains [OF L h2 h3 c] c show ?thesis by simp
qed

text \<open>
  When the listing reports no enumeration error and \<open>DownloadDirectory\<close> has returned,
  every goroutine it started has returned, the wait group is at zero, \<open>errCh\<close> is closed
  and no goroutine can move: nothing is left behind.
\<close>

theorem return_after_collect_leaves_nothing:
  assumes "\<forall>obj \<in> set (ListObjectsV2 (s3Client (service w)) (bucketName (service w)) path True (remote w)).
             Err obj = None"
      and "run path localPath evs (DownloadDirectory path localPath w) = Some c"
      and "mainpc c = Returned r"
  shows "(\<forall>x \<in> set (workers c). snd x = WDone) \<and> wg c = 0 \<and> closer c = CClosed
       \<and> doneCh_closed c \<and> (\<forall>ev. exec path localPath ev c = None)"
proof -
  let ?L = "ListObjectsV2 (s3Client (service w)) (bucketName (service w)) path True (remote w)"
  note i = inv_reach [OF assms(2)]
  note a = returned_after_collect [OF i assms(3) assms(1)]
  from i have pc: "inv_pc ?L c" and wk: "inv_workers c" by (simp_all add: inv_def)
  have "\<not> (\<exists>obj. Err obj = r \<and> r \<noteq> None \<and> ?L = map fst (workers c) @ obj # objectCh c)"
    using assms(1) by auto
  with pc assms(3) have cl: "closer c = CClosed" by (auto simp: inv_pc_def)
  with wk have wg: "wg c = 0" by (simp add: inv_workers_def)
  from wk assms(3) have dc: "doneCh_closed c" by (simp add: inv_workers_def returned_def)
  have "exec path localPath ev c = None" for ev
  proof (cases ev)
    case Main
    with assms(3) show ?thesis by (simp add: main_step_def)
  next
    case (Worker i)
    show ?thesis
    proof (cases "i < length (workers c)")
      case True
      with a(4) have "snd (workers c ! i) = WDone" by simp
      then obtain obj where "workers c ! i = (obj, WDone)" by (cases "workers c ! i") simp
      with Worker True show ?thesis by (simp add: worker_step_def)
    next
      case False
      with Worker show ?thesis by (simp add: worker_step_def)
    qed
  next
    case (ErrCh i)
    with assms(3) show ?thesis by (simp add: errCh_step_def)
  next
    case Closer
    with cl show ?thesis by (simp add: closer_step_def)
  qed
  with a(4) wg cl dc show ?thesis by blast
qed

theorem return_after_collect_leaves_nothing_witness:
  "map_option (\<lambda>c. (map snd (workers c), wg c, closer c, doneCh_closed c, exec ''p'' ''/tmp'' (Worker 0) c))
     (run ''p'' ''/tmp'' [Main, Main, Worker 0, ErrCh 0, Worker 0, Closer, Main]
        (DownloadDirectory ''p'' ''/tmp'' (recording_world (objects_under [''p/a'']) (\<lambda>k. Some ''timeout''))))
   = Some ([WDone], 0, CClosed, True, None)"
proof -
  let ?w = "recording_world (objects_under [''p/a'']) (\<lambda>k. Some ''timeout'')"
  let ?evs = "[Main, Main, Worker 0, ErrCh 0, Worker 0, Closer, Main]"
  have h: "\<forall>obj \<in> set (ListObjectsV2 (s3Client (service ?w)) (bucketName (service ?w)) ''p'' True (remote ?w)).
             Err obj = None"
    by (simp add: run_eval)
  have "map_option (\<lambda>c. (returned c, map snd (workers c)))
          (run ''p'' ''/tmp'' ?evs (DownloadDirectory ''p'' ''/tmp'' ?w)) = Some (True, [WDone])"
    by (simp add: run_eval returned_def)
  then obtain c r where c: "run ''p'' ''/tmp'' ?evs (DownloadDirectory ''p'' ''/tmp'' ?w) = Some c"
    and r: "mainpc c = Returned r" and m: "map snd (workers c) = [WDone]"
    by (cases "run ''p'' ''/tmp'' ?evs (DownloadDirectory ''p'' ''/tmp'' ?w)")
       (auto simp: returned_def split: mainpc.splits)
  note t = return_after_collect_leaves_nothing [OF h c r]
  from t have "exec ''p'' ''/tmp'' (Worker 0) c = None" by blast
  with t c m show ?thesis by simp
qed

section \<open>The calls made on the client\<close>

lemma recorded_exec:
  assumes "exec p lp ev c = Some c'"
      and "s3Client (service (wld c)) = recording_client listing failing"
      and "remote (wld c) = map (\<lambda>(k, l, r). CallFGetObject (bucketName (service (wld c))) k l) (fslog c)"
      and "\<forall>x \<in> set (fslog c). snd (snd x) = failing (fst x)"
  shows "remote (wld c') = map (\<lambda>(k, l, r). CallFGetObject (bucketName (service (wld c))) k l) (fslog c')
       \<and> (\<forall>x \<in> set (fslog c'). snd (snd x) = failing (fst x))"
proof (cases ev)
  case Main
  with assms show ?thesis
    by (auto simp: main_step_def split: mainpc.splits list.splits option.splits if_splits)
next
  case (Worker i)
  with assms(1) have "worker_step p lp i c = Some c'" by simp
  then show ?thesis
  proof (cases rule: worker_step_cases)
    case (marker obj as bs)
    with assms(3,4) show ?thesis by simp
  next
    case (ok obj as bs w')
    from ok(4) assms(2) have "w' = (wld c)\<lparr>remote := remote (wld c) @
        [CallFGetObject (bucketName (service (wld c))) (Key obj) (snd (target p lp obj))]\<rparr>"
      and "failing (Key obj) = None"
      by (auto simp: DownloadFile_def Let_def recording_client_def)
    with ok(5) assms(3,4) show ?thesis by simp
  next
    case (failed obj as bs w' e)
    from failed(4) assms(2) have "w' = (wld c)\<lparr>remote := remote (wld c) @
        [CallFGetObject (bucketName (service (wld c))) (Key obj) (snd (target p lp obj))]\<rparr>"
      and "failing (Key obj) = Some e"
      by (auto simp: DownloadFile_def Let_def recording_client_def)
    with failed(5) assms(3,4) show ?thesis by simp
  next
    case (finish obj as bs)
    with assms(3,4) show ?thesis by simp
  qed
next
  case (ErrCh i)
  with assms(1) have "errCh_step i c = Some c'" by simp
  then show ?thesis
    by (cases rule: errCh_step_cases) (use assms(3,4) in simp)
next
  case Closer
  with assms show ?thesis
    by (auto simp: closer_step_def split: if_splits)
qed

lemma recorded_run:
  assumes "run p lp evs c = Some c'"
      and "s3Client (service (wld c)) = recording_client listing failing"
      and "remote (wld c) = map (\<lambda>(k, l, r). CallFGetObject (bucketName (service (wld c))) k l) (fslog c)"
      and "\<forall>x \<in> set (fslog c). snd (snd x) = failing (fst x)"
  shows "remote (wld c') = map (\<lambda>(k, l, r). CallFGetObject (bucketName (service (wld c))) k l) (fslog c')
       \<and> (\<forall>x \<in> set (fslog c'). snd (snd x) = failing (fst x))"
  using assms
proof (induction evs arbitrary: c)
  case Nil
  then show ?case by simp
next
  case (Cons ev evs)
  then obtain c1 where 1: "exec p lp ev c = Some c1" and 2: "run p lp evs c1 = Some c'"
    by (auto split: option.splits)
  note s = service_exec [OF 1]
  from recorded_exec [OF 1 Cons.prems(2,3,4)] s Cons.prems(2)
  have "s3Client (service (wld c1)) = recording_client listing failing"
    and "remote (wld c1) = map (\<lambda>(k, l, r). CallFGetObject (bucketName (service (wld c1))) k l) (fslog c1)"
    and "\<forall>x \<in> set (fslog c1). snd (snd x) = failing (fst x)"
    by simp_all
  from Cons.IH [OF 2 this] s show ?case by simp
qed

text \<open>
  The log of downloads is what the client sees. Over the recording client, in every
  configuration of every run of \<open>DownloadDirectory\<close>, the calls made on the client are
  exactly the calls \<open>FGetObject(bucket, path, localPath)\<close> of the log, in its order, and
  the result logged for each is the client's result for that key.
\<close>

theorem recorded_downloads:
  assumes "run path localPath evs (DownloadDirectory path localPath (recording_world listing failing)) = Some c"
  shows "remote (wld c) = map (\<lambda>(k, l, r). CallFGetObject ''bucket'' k l) (fslog c)
       \<and> (\<forall>x \<in> set (fslog c). snd (snd x) = failing (fst x))"
  using recorded_run [OF assms, of listing failing]
  by (simp add: DownloadDirectory_def recording_world_def)

theorem recorded_downloads_witness:
  "map_option (\<lambda>c. (remote (wld c), fslog c))
     (run ''p'' ''/tmp'' [Main, Main, Worker 1, Worker 0]
        (DownloadDirectory ''p'' ''/tmp''
           (recording_world (objects_under [''p/a'', ''p/b'']) (\<lambda>k. if k = ''p/a'' then Some ''timeout'' else None))))
   = Some ([CallFGetObject ''bucket'' ''p/b'' ''/tmp/b'', CallFGetObject ''bucket'' ''p/a'' ''/tmp/a''],
           [(''p/b'', ''/tmp/b'', None), (''p/a'', ''/tmp/a'', Some ''timeout'')])"
proof -
  let ?w = "recording_world (objects_under [''p/a'', ''p/b'']) (\<lambda>k. if k = ''p/a'' then Some ''timeout'' else None)"
  have "map_option fslog (run ''p'' ''/tmp'' [Main, Main, Worker 1, Worker 0] (DownloadDirectory ''p'' ''/tmp'' ?w))
          = Some [(''p/b'', ''/tmp/b'', None), (''p/a'', ''/tmp/a'', Some ''timeout'')]"
    by (simp add: run_eval)
  then obtain c where c: "run ''p'' ''/tmp'' [Main, Main, Worker 1, Worker 0] (DownloadDirectory ''p'' ''/tmp'' ?w) = Some c"
    and l: "fslog c = [(''p/b'', ''/tmp/b'', None), (''p/a'', ''/tmp/a'', Some ''timeout'')]"
    by (cases "run ''p'' ''/tmp'' [Main, Main, Worker 1, Worker 0] (DownloadDirectory ''p'' ''/tmp'' ?w)") auto
  from recorded_downloads [OF c] l c show ?thesis by simp
qed

text \<open>
  Where every listed key begins with \<open>path/\<close>, the listing reports no enumeration error
  and every download succeeds, over the recording client: every run of
  \<open>DownloadDirectory\<close> is finite, can always go on to return \<open>nil\<close> and returns nothing
  else, and when it has returned, the calls made on the client are exactly one
  \<open>FGetObject\<close> per listed object that is not a marker, to the local root, a separator,
  and the key without its first \<open>length path + 1\<close> bytes.
\<close>

theorem stripped_downloads:
  assumes "\<forall>obj \<in> set (listing path). Err obj = None \<and> HasPrefix (Key obj) (path @ ''/'')"
      and "\<forall>obj \<in> set (listing path). \<not> HasSuffix (Key obj) ''/'' \<longrightarrow> failing (Key obj) = None"
      and "run path localPath evs (DownloadDirectory path localPath (recording_world listing failing)) = Some c"
  shows "length evs \<le> 4 * length (listing path) + 4
       \<and> (\<exists>evs' c'. run path localPath evs' c = Some c' \<and> mainpc c' = Returned None)
       \<and> (\<forall>r. mainpc c = Returned r \<longrightarrow>
             r = None
           \<and> mset (remote (wld c)) =
               mset (map (\<lambda>obj. CallFGetObject ''bucket'' (Key obj)
                                   (localPath @ ''/'' @ drop (length path + 1) (Key obj)))
                      (filter (\<lambda>obj. \<not> HasSuffix (Key obj) ''/'') (listing path))))"
proof -
  let ?w = "recording_world listing failing"
  have L: "ListObjectsV2 (s3Client (service ?w)) (bucketName (service ?w)) path True (remote ?w) = listing path"
    by (simp add: recording_world_def recording_client_def)
  from assms(1) have e: "\<forall>obj \<in> set (listing path). Err obj = None" by simp
  from assms(2) have ds: "downloads_succeed (service ?w) path localPath (listing path)"
    by (simp add: downloads_succeed_def is_marker_def recording_world_def recording_client_def)
  note a = all_succeed [OF L [symmetric] e ds assms(3)]
  from bound_reach [OF assms(3)] L have b: "length evs \<le> 4 * length (listing path) + 4" by simp
  have res: "r = None \<and> mset (remote (wld c)) =
               mset (map (\<lambda>obj. CallFGetObject ''bucket'' (Key obj)
                                   (localPath @ ''/'' @ drop (length path + 1) (Key obj)))
                      (filter (\<lambda>obj. \<not> HasSuffix (Key obj) ''/'') (listing path)))"
    if r: "mainpc c = Returned r" for r
  proof -
    from a(3) [OF r] have n: "r = None"
      and d: "mset (downloads c) = mset (map (target path localPath) (filter (\<lambda>obj. \<not> is_marker obj) (listing path)))"
      by simp_all
    from recorded_downloads [OF assms(3)]
    have "remote (wld c) = map (\<lambda>(k, l). CallFGetObject ''bucket'' k l) (downloads c)"
      by (simp add: downloads_def case_prod_beta)
    then have "mset (remote (wld c)) = image_mset (\<lambda>(k, l). CallFGetObject ''bucket'' k l) (mset (downloads c))"
      by simp
    also have "\<dots> = mset (map (\<lambda>obj. CallFGetObject ''bucket'' (Key obj) (snd (target path localPath obj)))
                       (filter (\<lambda>obj. \<not> is_marker obj) (listing path)))"
      unfolding d by (simp add: multiset.map_comp comp_def target_def)
    also have "map (\<lambda>obj. CallFGetObject ''bucket'' (Key obj) (snd (target path localPath obj)))
                       (filter (\<lambda>obj. \<not> is_marker obj) (listing path))
             = map (\<lambda>obj. CallFGetObject ''bucket'' (Key obj)
                                   (localPath @ ''/'' @ drop (length path + 1) (Key obj)))
                      (filter (\<lambda>obj. \<not> HasSuffix (Key obj) ''/'') (listing path))"
      using assms(1) by (auto simp: target_def fileName_def TrimPrefix_def is_marker_def)
    finally show ?thesis using n by simp
  qed
  from b a(2) res show ?thesis by blast
qed

theorem stripped_downloads_witness:
  "map_option (\<lambda>c. (mainpc c, mset (remote (wld c))))
     (run ''p'' ''/tmp'' [Main, Main, Main, Main, Worker 0, Worker 2, Worker 1, Worker 1, Worker 2, Closer, Main]
        (DownloadDirectory ''p'' ''/tmp'' (recording_world (objects_under [''p/'', ''p/a'', ''p/b'']) (\<lambda>k. None))))
   = Some (Returned None, {#CallFGetObject ''bucket'' ''p/a'' ''/tmp/a'', CallFGetObject ''bucket'' ''p/b'' ''/tmp/b''#})"
proof -
  let ?l = "objects_under [''p/'', ''p/a'', ''p/b'']"
  let ?w = "recording_world ?l (\<lambda>k. None)"
  let ?evs = "[Main, Main, Main, Main, Worker 0, Worker 2, Worker 1, Worker 1, Worker 2, Closer, Main]"
  have L: "?l ''p'' = [\<lparr>Key = ''p/'', Err = None\<rparr>, \<lparr>Key = ''p/a'', Err = None\<rparr>, \<lparr>Key = ''p/b'', Err = None\<rparr>]"
    by (simp add: objects_under_def HasPrefix_def)
  have h1: "\<forall>obj \<in> set (?l ''p''). Err obj = None \<and> HasPrefix (Key obj) (''p'' @ ''/'')"
    unfolding L by (simp add: HasPrefix_def)
  have h2: "\<forall>obj \<in> set (?l ''p''). \<not> HasSuffix (Key obj) ''/'' \<longrightarrow> (\<lambda>k. None :: error option) (Key obj) = None"
    by simp
  have "map_option returned (run ''p'' ''/tmp'' ?evs (DownloadDirectory ''p'' ''/tmp'' ?w)) = Some True"
    by (simp add: run_eval returned_def)
  then obtain c r where c: "run ''p'' ''/tmp'' ?evs (DownloadDirectory ''p'' ''/tmp'' ?w) = Some c"
    and r: "mainpc c = Returned r"
    by (cases "run ''p'' ''/tmp'' ?evs (DownloadDirectory ''p'' ''/tmp'' ?w)")
       (auto simp: returned_def split: mainpc.splits)
  from stripped_downloads [OF h1 h2 c] r
  have "r = None" and "mset (remote (wld c)) = {#CallFGetObject ''bucket'' ''p/a'' ''/tmp/a'', CallFGetObject ''bucket'' ''p/b'' ''/tmp/b''#}"
    unfolding L by (simp_all add: HasSuffix_def)
  with c r show ?thesis by simp
qed

end
